theory Spec2Isabelle
  imports Complex_Main "HOL-Library.AList"
begin

section \<open>Python text, as the widget uses it\<close>

text \<open>
  A Python \<open>str\<close> is modelled as a \<open>string\<close> whose characters are the code points
  U+0000 to U+00FF (Latin-1): \<open>of_char c\<close> is the code point of \<open>c\<close>.  The tables below
  (\<open>str.isnumeric\<close>, the white space and the digits that \<open>int\<close> accepts) are the
  Unicode tables restricted to that range.
\<close>

definition backslash :: char where
  "backslash = CHR 0x5C"

definition newline :: char where
  "newline = CHR 0x0A"

definition lbracket :: char where
  "lbracket = CHR 0x5B"

definition rbracket :: char where
  "rbracket = CHR 0x5D"

definition is_decimal :: "char \<Rightarrow> bool" where
  "is_decimal c = (48 \<le> (of_char c :: nat) \<and> (of_char c :: nat) \<le> 57)"

text \<open>
  \<open>c.isnumeric()\<close> for one character: the decimal digits, the superscripts
  U+00B2, U+00B3, U+00B9 and the fractions U+00BC, U+00BD, U+00BE.
\<close>

definition is_numeric_char :: "char \<Rightarrow> bool" where
  "is_numeric_char c =
     (is_decimal c \<or> (of_char c :: nat) \<in> {178, 179, 185, 188, 189, 190})"

text \<open>\<open>s.isnumeric()\<close>: at least one character, and all of them numeric.\<close>

definition isnumeric :: "string \<Rightarrow> bool" where
  "isnumeric s = (s \<noteq> [] \<and> list_all is_numeric_char s)"

subsection \<open>\<open>str\<close> of the values a template can show\<close>

definition digit_char :: "nat \<Rightarrow> char" where
  "digit_char d = char_of (48 + d)"

fun str_nat :: "nat \<Rightarrow> string" where
  "str_nat n = (if n < 10 then [digit_char n] else str_nat (n div 10) @ [digit_char (n mod 10)])"

declare str_nat.simps [simp del]

definition str_int :: "int \<Rightarrow> string" where
  "str_int i = (if i < 0 then CHR ''-'' # str_nat (nat (- i)) else str_nat (nat i))"

text \<open>
  A Python \<open>float\<close> is modelled by the rational number it denotes, and arithmetic on
  floats by exact arithmetic.  \<open>str_float\<close> writes the number in plain decimal notation,
  with at least one and at most sixteen digits after the point.
\<close>

fun frac_digits :: "nat \<Rightarrow> rat \<Rightarrow> string" where
  "frac_digits 0 f = []"
| "frac_digits (Suc k) f =
     (let d = \<lfloor>10 * f\<rfloor>; r = 10 * f - of_int d
      in digit_char (nat d) # (if r = 0 then [] else frac_digits k r))"

definition str_float :: "rat \<Rightarrow> string" where
  "str_float x =
     (let a = \<bar>x\<bar>; n = \<lfloor>a\<rfloor>
      in (if x < 0 then ''-'' else '''') @ str_nat (nat n) @ ''.'' @ frac_digits 16 (a - of_int n))"

definition str_opt_int :: "int option \<Rightarrow> string" where
  "str_opt_int v = (case v of None \<Rightarrow> ''None'' | Some i \<Rightarrow> str_int i)"

definition str_opt_float :: "rat option \<Rightarrow> string" where
  "str_opt_float v = (case v of None \<Rightarrow> ''None'' | Some x \<Rightarrow> str_float x)"

definition str_opt_str :: "string option \<Rightarrow> string" where
  "str_opt_str v = (case v of None \<Rightarrow> ''None'' | Some s \<Rightarrow> s)"

subsection \<open>\<open>int(s)\<close> and \<open>round(x, 1)\<close>\<close>

text \<open>
  \<open>int(s)\<close> in base ten: white space around, an optional sign, then decimal digits in
  groups separated by single underscores.  \<open>None\<close> is the \<open>ValueError\<close>.  CPython 3.11 and
  later (and the security releases of 3.7 to 3.10) also raise \<open>ValueError\<close> when the
  literal has more than \<open>sys.get_int_max_str_digits()\<close> digits, 4300 unless configured
  otherwise: leading zeros count, the sign, the underscores and the white space do not.
\<close>

definition is_space :: "char \<Rightarrow> bool" where
  "is_space c = ((of_char c :: nat) \<in> {9, 10, 11, 12, 13, 32, 133, 160})"

definition digit_val :: "char \<Rightarrow> int" where
  "digit_val c = int (of_char c) - 48"

fun parse_digits :: "int \<Rightarrow> string \<Rightarrow> int option" where
  "parse_digits acc [] = Some acc"
| "parse_digits acc [c] = (if is_decimal c then Some (10 * acc + digit_val c) else None)"
| "parse_digits acc (c # d # cs) =
     (if is_decimal c then parse_digits (10 * acc + digit_val c) (d # cs)
      else if c = CHR ''_'' \<and> is_decimal d then parse_digits acc (d # cs)
      else None)"

definition parse_unsigned :: "string \<Rightarrow> int option" where
  "parse_unsigned s = (case s of [] \<Rightarrow> None
     | c # cs \<Rightarrow> if is_decimal c then parse_digits 0 s else None)"

definition strip :: "string \<Rightarrow> string" where
  "strip s = rev (dropWhile is_space (rev (dropWhile is_space s)))"

definition max_str_digits :: nat where
  "max_str_digits = 4300"

definition py_int :: "string \<Rightarrow> int option" where
  "py_int s = (case strip s of [] \<Rightarrow> None
     | c # cs \<Rightarrow>
         if max_str_digits < length (filter is_decimal s) then None
         else if c = CHR ''-'' then map_option uminus (parse_unsigned cs)
         else if c = CHR ''+'' then parse_unsigned cs
         else parse_unsigned (c # cs))"

text \<open>\<open>round(x, 1)\<close>: to the nearest tenth, a tie to the even one.\<close>

definition py_round1 :: "rat \<Rightarrow> rat" where
  "py_round1 x =
     (let n = \<lfloor>10 * x\<rfloor>; r = 10 * x - of_int n
      in if r < 1 / 2 then of_int n / 10
         else if 1 / 2 < r then of_int (n + 1) / 10
         else if even n then of_int n / 10 else of_int (n + 1) / 10)"

section \<open>The regular expressions of \<open>_get_formatted\<close>\<close>

text \<open>
  \<open>re.findall(r'(?<!\\)\[(.+?)(?<!\\)\]', template)\<close>.  A token opens at a \<open>[\<close> that
  no backslash precedes; its name is the shortest run of one or more characters other
  than a line feed that a \<open>]\<close> follows which no backslash precedes.  \<open>scan_close\<close> is
  handed the name read so far, its last character and the text ahead.
\<close>

fun scan_close :: "string \<Rightarrow> char \<Rightarrow> string \<Rightarrow> (string \<times> string) option" where
  "scan_close acc lastc [] = None"
| "scan_close acc lastc (c # cs) =
     (if c = rbracket \<and> lastc \<noteq> backslash then Some (acc, cs)
      else if c = newline then None
      else scan_close (acc @ [c]) c cs)"

fun match_token :: "string \<Rightarrow> (string \<times> string) option" where
  "match_token [] = None"
| "match_token (c # cs) = (if c = newline then None else scan_close [c] c cs)"

text \<open>
  The scan from left to right; \<open>esc\<close> says that the character just before is a
  backslash.  Matches do not overlap: the scan goes on after the closing bracket.
\<close>

function findall_from :: "bool \<Rightarrow> string \<Rightarrow> string list" where
  "findall_from esc [] = []"
| "findall_from esc (c # cs) =
     (if c = lbracket \<and> \<not> esc then
        (case match_token cs of
           Some (name, rest) \<Rightarrow> name # findall_from False rest
         | None \<Rightarrow> findall_from False cs)
      else findall_from (c = backslash) cs)"
  by pat_completeness auto
termination
proof -
  have close: "length rest < length cs" if "scan_close acc lastc cs = Some (name, rest)"
    for acc lastc cs name rest
    using that
  proof (induction cs arbitrary: acc lastc)
    case Nil
    then show ?case by simp
  next
    case (Cons c cs)
    show ?case
    proof (cases "c = rbracket \<and> lastc \<noteq> backslash")
      case True
      with Cons.prems show ?thesis by auto
    next
      case False
      with Cons.prems have "scan_close (acc @ [c]) c cs = Some (name, rest)"
        by (auto split: if_splits)
      from Cons.IH [OF this] show ?thesis by simp
    qed
  qed
  have token: "length rest < length cs" if "match_token cs = Some (name, rest)" for cs name rest
    using that by (cases cs) (auto split: if_splits dest: close)
  show ?thesis
    by (relation "measure (\<lambda>(esc, s). length s)") (auto dest: token)
qed

declare findall_from.simps [simp del]

definition findall :: "string \<Rightarrow> string list" where
  "findall template = findall_from False template"

text \<open>
  \<open>re.sub(r'(?<!\\)\[' + name + r'(?<!\\)\]', value, template)\<close>, for a name that holds no
  character with a meaning in a regular expression and a value that holds no backslash:
  then the pattern is the text \<open>[name]\<close> with no backslash before it, and the value is put
  in as it is.  What Python does with other names and values (it reads the name as a
  regular expression and the escapes of the value) is not modelled: \<open>re_sub\<close> answers
  \<open>Regex_outside_model\<close> there.
\<close>

datatype error =
    RuntimeError string
  | ValueError
  | TypeError
  | KeyError string
  | Regex_outside_model

definition regex_special :: "char \<Rightarrow> bool" where
  "regex_special c = (c \<in> set ''.^$*+?{}[]()|'' \<or> c = backslash \<or> c = newline)"

definition plain_name :: "string \<Rightarrow> bool" where
  "plain_name name = (name \<noteq> [] \<and> \<not> list_ex regex_special name)"

fun sub_scan :: "string \<Rightarrow> string \<Rightarrow> bool \<Rightarrow> string \<Rightarrow> string" where
  "sub_scan name v esc [] = []"
| "sub_scan name v esc (c # cs) =
     (if c = lbracket \<and> \<not> esc \<and> take (length name + 1) cs = name @ [rbracket]
      then v @ sub_scan name v False (drop (length name + 1) cs)
      else c # sub_scan name v (c = backslash) cs)"

declare sub_scan.simps [simp del]

definition re_sub :: "string \<Rightarrow> string \<Rightarrow> string \<Rightarrow> error + string" where
  "re_sub name v template =
     (if plain_name name \<and> backslash \<notin> set v then Inr (sub_scan name v False template)
      else Inl Regex_outside_model)"

section \<open>The widget\<close>

subsection \<open>State table\<close>

text \<open>
  The handlers are the five methods that the routing tables name; the statement
  \<open>self.bind('<event>', self.<name>)\<close> that \<open>set_widget_state\<close> executes binds the method of
  that name.
\<close>

datatype handler = Start_game | On_keypress | On_backspace | On_enter | Next_problem

record widget_state =
  message :: string
  event_routings :: "(string \<times> handler list) list"

definition MultiplicationWidgetState :: "string \<Rightarrow> (string \<times> handler list) list \<Rightarrow> widget_state" where
  "MultiplicationWidgetState msg routings = \<lparr>message = msg, event_routings = routings\<rparr>"

definition widget_states :: "(string \<times> widget_state) list" where
  "widget_states =
    [(''initial'', MultiplicationWidgetState
        (''[num_problems] Challenges.'' @ newline # ''Click to Start!'')
        [(''<Button-1>'', [Start_game]), (''<Return>'', [Start_game])]),
     (''problem'', MultiplicationWidgetState
        (''[first_num] X [second_num]'' @ newline # ''[_user_input_buffer]'')
        [(''<Key>'', [On_keypress]), (''<BackSpace>'', [On_backspace]), (''<Return>'', [On_enter])]),
     (''correct'', MultiplicationWidgetState
        (''That'' @ CHR 0x27 # ''s correct!'' @ newline # ''Click to continue.'')
        [(''<Button-1>'', [Next_problem]), (''<Return>'', [Next_problem])]),
     (''incorrect'', MultiplicationWidgetState
        (''That'' @ CHR 0x27 # ''s incorrect.'' @ newline # ''Click to continue.'')
        [(''<Button-1>'', [Next_problem]), (''<Return>'', [Next_problem])]),
     (''end'', MultiplicationWidgetState
        (''You solved [num_solved] out of [num_problems] in [seconds_elapsed] seconds!''
           @ newline # ''Click to play again!'')
        [(''<Button-1>'', [Start_game]), (''<Return>'', [Start_game])])]"

subsection \<open>The object\<close>

text \<open>
  The attributes that \<open>__init__\<close> sets, with \<open>None\<close> as \<open>None\<close>; \<open>text_var\<close> is the content
  of the \<open>StringVar\<close> \<open>self.text\<close> that the label shows, \<open>bindings\<close> the binding table of
  the Tk window (event sequence to bound method).  A leading underscore of an attribute
  is dropped in the field name.

  Two dictionaries of \<open>_get_formatted\<close> hold objects that are not modelled; they are kept
  as tables from a name to the text \<open>str\<close> gives for its value:
  \<^item> \<open>other_vars\<close>: the entries of \<open>vars(self)\<close> besides the twelve above (those of Tk, and
    \<open>widget_states\<close>, \<open>text\<close>, \<open>label\<close>);
  \<^item> \<open>scope_vars\<close>: the entries of \<open>dict(globals(), **locals())\<close> besides the local
    variables \<open>template\<close>, \<open>match_str\<close> and \<open>candidate\<close> (the module's globals, and the
    locals \<open>self\<close>, \<open>replacement_candidates\<close>, \<open>replacements\<close>).
\<close>

record widget =
  num_problems :: int
  seconds_elapsed :: "rat option"
  num_solved :: "int option"
  num_displayed :: "int option"
  first_num :: "int option"
  second_num :: "int option"
  start_time :: "rat option"
  end_time :: "rat option"
  user_input_buffer :: "string option"
  min_factor :: int
  max_factor :: int
  curr_widget_state :: string
  text_var :: string
  bindings :: "(string \<times> handler) list"
  other_vars :: "(string \<times> string) list"
  scope_vars :: "(string \<times> string) list"

type_synonym result = "(error \<times> widget) + widget"

text \<open>
  An exception leaves the object as it is when it is raised: \<open>Inl (e, w)\<close> is the
  exception \<open>e\<close> with the object \<open>w\<close> at that moment.
\<close>

subsection \<open>\<open>_get_formatted\<close>\<close>

definition vars_self :: "widget \<Rightarrow> (string \<times> string) list" where
  "vars_self w =
    [(''num_problems'', str_int (num_problems w)),
     (''seconds_elapsed'', str_opt_float (seconds_elapsed w)),
     (''num_solved'', str_opt_int (num_solved w)),
     (''_num_displayed'', str_opt_int (num_displayed w)),
     (''first_num'', str_opt_int (first_num w)),
     (''second_num'', str_opt_int (second_num w)),
     (''_start_time'', str_opt_float (start_time w)),
     (''_end_time'', str_opt_float (end_time w)),
     (''_user_input_buffer'', str_opt_str (user_input_buffer w)),
     (''_min_factor'', str_int (min_factor w)),
     (''_max_factor'', str_int (max_factor w)),
     (''curr_widget_state'', curr_widget_state w)] @ other_vars w"

definition match_str :: string where
  "match_str = [CHR ''('', CHR ''?'', CHR ''<'', CHR ''!'', backslash, backslash, CHR '')'',
                backslash, lbracket, CHR ''('', CHR ''.'', CHR ''+'', CHR ''?'', CHR '')'',
                CHR ''('', CHR ''?'', CHR ''<'', CHR ''!'', backslash, backslash, CHR '')'',
                backslash, rbracket]"

text \<open>\<open>dict(globals(), **locals())[candidate]\<close>, the locals first.\<close>

definition scope_lookup :: "widget \<Rightarrow> string \<Rightarrow> string \<Rightarrow> string option" where
  "scope_lookup w template candidate =
     (if candidate = ''template'' then Some template
      else if candidate = ''match_str'' then Some match_str
      else if candidate = ''candidate'' then Some candidate
      else map_of (scope_vars w) candidate)"

definition lookup :: "widget \<Rightarrow> string \<Rightarrow> string \<Rightarrow> string option" where
  "lookup w template candidate =
     (case map_of (vars_self w) candidate of
        Some v \<Rightarrow> Some v
      | None \<Rightarrow> scope_lookup w template candidate)"

definition bad_format_key :: "string \<Rightarrow> error" where
  "bad_format_key candidate = RuntimeError (''Bad format key: '' @ CHR 0x22 # candidate @ [CHR 0x22])"

text \<open>The first loop fills the dictionary \<open>replacements\<close>, which keeps the order of first entry.\<close>

fun find_values :: "widget \<Rightarrow> string \<Rightarrow> string list \<Rightarrow> (string \<times> string) list
    \<Rightarrow> error + (string \<times> string) list" where
  "find_values w template [] replacements = Inr replacements"
| "find_values w template (candidate # cs) replacements =
     (case lookup w template candidate of
        Some v \<Rightarrow> find_values w template cs (AList.update candidate v replacements)
      | None \<Rightarrow> Inl (bad_format_key candidate))"

text \<open>The second loop: one \<open>re.sub\<close> for each entry, each on the result of the one before.\<close>

fun replace_all :: "(string \<times> string) list \<Rightarrow> string \<Rightarrow> error + string" where
  "replace_all [] template = Inr template"
| "replace_all ((candidate, v) # rs) template =
     (case re_sub candidate v template of
        Inl e \<Rightarrow> Inl e
      | Inr template' \<Rightarrow> replace_all rs template')"

definition get_formatted :: "widget \<Rightarrow> string \<Rightarrow> error + string" where
  "get_formatted w template =
     (case find_values w template (findall template) [] of
        Inl e \<Rightarrow> Inl e
      | Inr replacements \<Rightarrow> replace_all replacements template)"

subsection \<open>\<open>refresh_text\<close> and \<open>set_widget_state\<close>\<close>

definition refresh_text :: "widget \<Rightarrow> result" where
  "refresh_text w =
     (case map_of widget_states (curr_widget_state w) of
        None \<Rightarrow> Inl (KeyError (curr_widget_state w), w)
      | Some widget_state \<Rightarrow>
          (case get_formatted w (message widget_state) of
             Inl e \<Rightarrow> Inl (e, w)
           | Inr s \<Rightarrow> Inr (w\<lparr>text_var := s\<rparr>)))"

text \<open>
  \<open>self.unbind(event_name)\<close> drops the binding of the event; \<open>self.bind(event_name, f)\<close>
  replaces it.  Both loops run once for each method name of each event.
\<close>

definition unbind_routings :: "(string \<times> handler list) list \<Rightarrow> (string \<times> handler) list
    \<Rightarrow> (string \<times> handler) list" where
  "unbind_routings routings bs =
     fold (\<lambda>(event_name, funcs). fold (\<lambda>func_name. AList.delete event_name) funcs) routings bs"

definition bind_routings :: "(string \<times> handler list) list \<Rightarrow> (string \<times> handler) list
    \<Rightarrow> (string \<times> handler) list" where
  "bind_routings routings bs =
     fold (\<lambda>(event_name, funcs). fold (\<lambda>func_name. AList.update event_name func_name) funcs) routings bs"

definition set_widget_state :: "string \<Rightarrow> widget \<Rightarrow> result" where
  "set_widget_state state_name w =
     (case map_of widget_states state_name of
        None \<Rightarrow> Inl (KeyError state_name, w)
      | Some widget_state \<Rightarrow>
     (case map_of widget_states (curr_widget_state w) of
        None \<Rightarrow> Inl (KeyError (curr_widget_state w), w)
      | Some old_widget_state \<Rightarrow>
          let w1 = w\<lparr>bindings := unbind_routings (event_routings old_widget_state) (bindings w)\<rparr>;
              w2 = w1\<lparr>bindings := bind_routings (event_routings widget_state) (bindings w1)\<rparr>
          in (case get_formatted w2 (message widget_state) of
                Inl e \<Rightarrow> Inl (e, w2)
              | Inr s \<Rightarrow> Inr (w2\<lparr>text_var := s, curr_widget_state := state_name\<rparr>))))"

subsection \<open>The handlers\<close>

text \<open>
  What the world gives to one handler call: the value of \<open>time.time()\<close> and the draws
  behind the calls of \<open>randint\<close>.  \<open>randint(a, b)\<close> raises \<open>ValueError\<close> when \<open>b < a\<close>;
  otherwise a draw \<open>r\<close> picks \<open>a + r mod (b - a + 1)\<close>, so that every value from \<open>a\<close> to \<open>b\<close>
  and no other can come out.
\<close>

record inputs =
  clock :: rat
  draw1 :: nat
  draw2 :: nat
  draw3 :: nat
  draw4 :: nat

definition randint :: "int \<Rightarrow> int \<Rightarrow> nat \<Rightarrow> int option" where
  "randint a b r = (if b < a then None else Some (a + int (r mod nat (b - a + 1))))"

definition gen_factors :: "nat \<Rightarrow> nat \<Rightarrow> widget \<Rightarrow> result" where
  "gen_factors d1 d2 w =
     (case randint (min_factor w) (max_factor w) d1 of
        None \<Rightarrow> Inl (ValueError, w)
      | Some x \<Rightarrow>
          (case randint (min_factor w) (max_factor w) d2 of
             None \<Rightarrow> Inl (ValueError, w\<lparr>first_num := Some x\<rparr>)
           | Some y \<Rightarrow> Inr (w\<lparr>first_num := Some x, second_num := Some y\<rparr>)))"

definition init_vars :: "widget \<Rightarrow> widget" where
  "init_vars w = w\<lparr>num_solved := Some 0, num_displayed := Some 0, user_input_buffer := Some []\<rparr>"

definition display_problem :: "rat \<Rightarrow> nat \<Rightarrow> nat \<Rightarrow> widget \<Rightarrow> result" where
  "display_problem t d1 d2 w =
     (if num_displayed w = Some (num_problems w) then
        (let w1 = w\<lparr>end_time := Some t\<rparr>
         in case start_time w1 of
              None \<Rightarrow> Inl (TypeError, w1)
            | Some t0 \<Rightarrow> set_widget_state ''end'' (w1\<lparr>seconds_elapsed := Some (py_round1 (t - t0))\<rparr>))
      else
        (case gen_factors d1 d2 w of
           Inl e \<Rightarrow> Inl e
         | Inr w1 \<Rightarrow>
             (case set_widget_state ''problem'' w1 of
                Inl e \<Rightarrow> Inl e
              | Inr w2 \<Rightarrow>
                  (case num_displayed w2 of
                     None \<Rightarrow> Inl (TypeError, w2)
                   | Some d \<Rightarrow> Inr (w2\<lparr>num_displayed := Some (d + 1)\<rparr>)))))"

definition start_game :: "inputs \<Rightarrow> widget \<Rightarrow> result" where
  "start_game inp w =
     display_problem (clock inp) (draw1 inp) (draw2 inp) ((init_vars w)\<lparr>start_time := Some (clock inp)\<rparr>)"

definition on_keypress :: "string \<Rightarrow> widget \<Rightarrow> result" where
  "on_keypress event_char w =
     (if isnumeric event_char then
        (case user_input_buffer w of
           None \<Rightarrow> Inl (TypeError, w)
         | Some b \<Rightarrow> refresh_text (w\<lparr>user_input_buffer := Some (b @ event_char)\<rparr>))
      else Inr w)"

definition on_backspace :: "widget \<Rightarrow> result" where
  "on_backspace w =
     (case user_input_buffer w of
        None \<Rightarrow> Inl (TypeError, w)
      | Some b \<Rightarrow> refresh_text (w\<lparr>user_input_buffer := Some (butlast b)\<rparr>))"

definition on_enter :: "widget \<Rightarrow> result" where
  "on_enter w =
     (case user_input_buffer w of
        None \<Rightarrow> Inl (TypeError, w)
      | Some b \<Rightarrow>
          if 0 < length b then
            (case first_num w of
               None \<Rightarrow> Inl (TypeError, w)
             | Some x \<Rightarrow>
            (case second_num w of
               None \<Rightarrow> Inl (TypeError, w)
             | Some y \<Rightarrow>
            (case py_int b of
               None \<Rightarrow> Inl (ValueError, w)
             | Some answer \<Rightarrow>
                 if answer = x * y then
                   (case num_solved w of
                      None \<Rightarrow> Inl (TypeError, w)
                    | Some n \<Rightarrow> set_widget_state ''correct'' (w\<lparr>num_solved := Some (n + 1)\<rparr>))
                 else set_widget_state ''incorrect'' w)))
          else Inr w)"

definition next_problem :: "inputs \<Rightarrow> widget \<Rightarrow> result" where
  "next_problem inp w =
     (case gen_factors (draw1 inp) (draw2 inp) w of
        Inl e \<Rightarrow> Inl e
      | Inr w1 \<Rightarrow>
          display_problem (clock inp) (draw3 inp) (draw4 inp) (w1\<lparr>user_input_buffer := Some []\<rparr>))"

subsection \<open>Start-up and the event loop\<close>

definition new_widget :: "(string \<times> string) list \<Rightarrow> (string \<times> string) list \<Rightarrow> widget" where
  "new_widget ov sv =
     \<lparr>num_problems = 5, seconds_elapsed = None, num_solved = None, num_displayed = None,
      first_num = None, second_num = None, start_time = None, end_time = None,
      user_input_buffer = None, min_factor = 0, max_factor = 10,
      curr_widget_state = ''initial'', text_var = [], bindings = [],
      other_vars = ov, scope_vars = sv\<rparr>"

definition MultiplicationWidget :: "(string \<times> string) list \<Rightarrow> (string \<times> string) list \<Rightarrow> result" where
  "MultiplicationWidget ov sv =
     (let w = new_widget ov sv in set_widget_state (curr_widget_state w) w)"

text \<open>
  The events of the window: a click of the first mouse button, the keys Return and
  BackSpace, and any other key with the text \<open>event.char\<close> it carries.  Tk calls the
  most specific binding that matches, so \<open><Return>\<close> and \<open><BackSpace>\<close> come before
  \<open><Key>\<close>.
\<close>

datatype event = Button_1 | Return | BackSpace | Key string

fun sequences :: "event \<Rightarrow> string list" where
  "sequences Button_1 = [''<Button-1>'']"
| "sequences Return = [''<Return>'', ''<Key>'']"
| "sequences BackSpace = [''<BackSpace>'', ''<Key>'']"
| "sequences (Key c) = [''<Key>'']"

fun event_char :: "event \<Rightarrow> string" where
  "event_char Button_1 = ''??''"
| "event_char Return = [CHR 0x0D]"
| "event_char BackSpace = [CHR 0x08]"
| "event_char (Key c) = c"

definition bound_handler :: "event \<Rightarrow> widget \<Rightarrow> handler option" where
  "bound_handler ev w =
     (case List.map_filter (map_of (bindings w)) (sequences ev) of
        [] \<Rightarrow> None
      | h # hs \<Rightarrow> Some h)"

fun call :: "handler \<Rightarrow> event \<Rightarrow> inputs \<Rightarrow> widget \<Rightarrow> result" where
  "call Start_game ev inp w = start_game inp w"
| "call On_keypress ev inp w = on_keypress (event_char ev) w"
| "call On_backspace ev inp w = on_backspace w"
| "call On_enter ev inp w = on_enter w"
| "call Next_problem ev inp w = next_problem inp w"

text \<open>Tk reports an exception of a callback and goes on with the object as it is.\<close>

definition after :: "result \<Rightarrow> widget" where
  "after r = (case r of Inl (e, w) \<Rightarrow> w | Inr w \<Rightarrow> w)"

definition dispatch :: "event \<Rightarrow> inputs \<Rightarrow> widget \<Rightarrow> widget" where
  "dispatch ev inp w =
     (case bound_handler ev w of
        None \<Rightarrow> w
      | Some h \<Rightarrow> after (call h ev inp w))"

inductive reachable :: "widget \<Rightarrow> bool" where
  started: "MultiplicationWidget ov sv = Inr w \<Longrightarrow> reachable w"
| handled: "reachable w \<Longrightarrow> reachable (dispatch ev inp w)"

section \<open>Notions for the proofs\<close>

text \<open>A text is quiet when it holds neither a backslash nor an opening bracket.\<close>

definition quiet :: "string \<Rightarrow> bool" where
  "quiet s = (backslash \<notin> set s \<and> lbracket \<notin> set s)"

text \<open>The input buffer, when it is set, holds no backslash.\<close>

definition buffer_ok :: "widget \<Rightarrow> bool" where
  "buffer_ok w = (case user_input_buffer w of None \<Rightarrow> True | Some b \<Rightarrow> backslash \<notin> set b)"


text \<open>The binding table that the routings of a state make on an empty table.\<close>

definition state_bindings :: "string \<Rightarrow> (string \<times> handler) list" where
  "state_bindings t =
     (case map_of widget_states t of
        None \<Rightarrow> []
      | Some st \<Rightarrow> bind_routings (event_routings st) [])"

text \<open>
  The invariant of the event loop.  Outside the state \<open>initial\<close> a session has begun:
  the counters, the buffer, the factors and the start time are set, and the counters
  are in order; while a problem is shown it is counted as displayed and not yet as solved.
\<close>

definition buffer_numeric :: "widget \<Rightarrow> bool" where
  "buffer_numeric w =
     (case user_input_buffer w of None \<Rightarrow> True | Some b \<Rightarrow> list_all is_numeric_char b)"

definition counters_ok :: "widget \<Rightarrow> bool" where
  "counters_ok w =
     (case num_solved w of
        None \<Rightarrow> False
      | Some s \<Rightarrow>
          (case num_displayed w of
             None \<Rightarrow> False
           | Some d \<Rightarrow> 0 \<le> s \<and> s \<le> d \<and> d \<le> num_problems w))"

definition session_ok :: "widget \<Rightarrow> bool" where
  "session_ok w =
     (counters_ok w \<and> user_input_buffer w \<noteq> None \<and> first_num w \<noteq> None \<and> second_num w \<noteq> None
      \<and> start_time w \<noteq> None
      \<and> (curr_widget_state w = ''problem'' \<longrightarrow> num_solved w \<noteq> num_displayed w))"

definition widget_inv :: "widget \<Rightarrow> bool" where
  "widget_inv w =
     (map_of widget_states (curr_widget_state w) \<noteq> None
      \<and> bindings w = state_bindings (curr_widget_state w)
      \<and> num_problems w = 5 \<and> min_factor w = 0 \<and> max_factor w = 10
      \<and> buffer_numeric w
      \<and> (curr_widget_state w \<noteq> ''initial'' \<longrightarrow> session_ok w))"

text \<open>The three settings that \<open>__init__\<close> fixes.\<close>

definition config :: "widget \<Rightarrow> int \<times> int \<times> int" where
  "config w = (num_problems w, min_factor w, max_factor w)"

text \<open>
  For the examples: the widget right after start-up, with empty tables for the
  attributes and the names in scope that are not modelled, and what the world gives
  to a handler call: the time 10 and draws that make the factors 7 and 8.
\<close>

definition started_widget :: widget where
  "started_widget = after (MultiplicationWidget [] [])"

definition example_inputs :: inputs where
  "example_inputs = \<lparr>clock = 10, draw1 = 7, draw2 = 8, draw3 = 7, draw4 = 8\<rparr>"


text \<open>The event loop, fed a list of events, each handler call with the same inputs.\<close>

definition run :: "event list \<Rightarrow> inputs \<Rightarrow> widget \<Rightarrow> widget" where
  "run evs inp w = foldl (\<lambda>w ev. dispatch ev inp w) w evs"

text \<open>
  The first problem of a session on the screen (7 X 8), then with \<open>56\<close> typed in, and
  with the superscript two (U+00B2) typed in.
\<close>

definition first_problem :: widget where
  "first_problem = run [Button_1] example_inputs started_widget"

definition typed_56 :: widget where
  "typed_56 = run [Key ''5'', Key ''6''] example_inputs first_problem"

definition typed_superscript :: widget where
  "typed_superscript = run [Key [CHR 0xB2]] example_inputs first_problem"


text \<open>
  A session in which five problems have been answered with \<open>56\<close>: the click that
  starts it, and between two answers the click that calls \<open>next_problem\<close>, four times.
\<close>

definition answer_56 :: "event list" where
  "answer_56 = [Key ''5'', Key ''6'', Return]"

definition five_answered :: widget where
  "five_answered =
     run (Button_1 # answer_56 @ Button_1 # answer_56 @ Button_1 # answer_56
            @ Button_1 # answer_56 @ Button_1 # answer_56)
       example_inputs started_widget"

text \<open>The end of that session: the click after the fifth answer.\<close>

definition session_ended :: widget where
  "session_ended = dispatch Button_1 example_inputs five_answered"

section \<open>The resolver of the specification\<close>

text \<open>
  The template resolver as the specification describes it (section 4.1): the template
  is scanned once for tokens, with the token grammar of \<open>re.findall\<close> above, and each
  token whose name has an entry in the context is replaced by the text of its value;
  the text put in is not scanned again.  \<open>resolve\<close> fails on the first token name that
  has no entry, with the error that \<open>_get_formatted\<close> raises for a bad format key.
\<close>

function single_pass_from :: "(string \<Rightarrow> string option) \<Rightarrow> bool \<Rightarrow> string \<Rightarrow> string" where
  "single_pass_from ctx esc [] = []"
| "single_pass_from ctx esc (c # cs) =
     (if c = lbracket \<and> \<not> esc then
        (case match_token cs of
           Some (name, rest) \<Rightarrow>
             (case ctx name of
                Some v \<Rightarrow> v
              | None \<Rightarrow> lbracket # name @ [rbracket]) @ single_pass_from ctx False rest
         | None \<Rightarrow> c # single_pass_from ctx False cs)
      else c # single_pass_from ctx (c = backslash) cs)"
  by pat_completeness auto
termination
proof -
  have close: "length rest < length cs" if "scan_close acc lastc cs = Some (name, rest)"
    for acc lastc cs name rest
    using that
  proof (induction cs arbitrary: acc lastc)
    case Nil
    then show ?case by simp
  next
    case (Cons c cs)
    show ?case
    proof (cases "c = rbracket \<and> lastc \<noteq> backslash")
      case True
      with Cons.prems show ?thesis by auto
    next
      case False
      with Cons.prems have "scan_close (acc @ [c]) c cs = Some (name, rest)"
        by (auto split: if_splits)
      from Cons.IH [OF this] show ?thesis by simp
    qed
  qed
  have token: "length rest < length cs" if "match_token cs = Some (name, rest)" for cs name rest
    using that by (cases cs) (auto split: if_splits dest: close)
  show ?thesis
    by (relation "measure (\<lambda>(ctx, esc, s). length s)") (auto dest: token)
qed

declare single_pass_from.simps [simp del]

definition single_pass :: "(string \<Rightarrow> string option) \<Rightarrow> string \<Rightarrow> string" where
  "single_pass ctx template = single_pass_from ctx False template"

definition resolve :: "(string \<Rightarrow> string option) \<Rightarrow> string \<Rightarrow> error + string" where
  "resolve ctx template =
     (case List.find (\<lambda>name. ctx name = None) (findall template) of
        Some name \<Rightarrow> Inl (bad_format_key name)
      | None \<Rightarrow> Inr (single_pass ctx template))"

section \<open>Lemmas\<close>

subsection \<open>Texts\<close>

lemma scan_close_shorter: "scan_close acc lastc cs = Some (name, rest) \<Longrightarrow> length rest < length cs"
proof (induction cs arbitrary: acc lastc)
  case Nil
  then show ?case by simp
next
  case (Cons c cs)
  show ?case
  proof (cases "c = rbracket \<and> lastc \<noteq> backslash")
    case True
    with Cons.prems show ?thesis by auto
  next
    case False
    with Cons.prems have "scan_close (acc @ [c]) c cs = Some (name, rest)"
      by (auto split: if_splits)
    from Cons.IH [OF this] show ?thesis by simp
  qed
qed

lemma match_token_shorter: "match_token cs = Some (name, rest) \<Longrightarrow> length rest < length cs"
  by (cases cs) (auto split: if_splits dest: scan_close_shorter)

lemma is_decimal_digit_char: "d < 10 \<Longrightarrow> is_decimal (digit_char d)"
  by (simp add: is_decimal_def digit_char_def)

lemma str_nat_decimal: "list_all is_decimal (str_nat n)"
proof (induction n rule: str_nat.induct)
  case (1 n)
  show ?case
  proof (cases "n < 10")
    case True
    then show ?thesis by (simp add: str_nat.simps [of n] is_decimal_digit_char)
  next
    case False
    with 1 show ?thesis by (simp add: str_nat.simps [of n] is_decimal_digit_char)
  qed
qed

lemma frac_digits_decimal: "0 \<le> f \<Longrightarrow> f < 1 \<Longrightarrow> list_all is_decimal (frac_digits k f)"
proof (induction k arbitrary: f)
  case 0
  then show ?case by simp
next
  case (Suc k)
  let ?d = "\<lfloor>10 * f\<rfloor>"
  let ?r = "10 * f - of_int ?d"
  from Suc.prems have d: "0 \<le> ?d" "?d < 10" by (auto simp: floor_less_iff)
  have r: "0 \<le> ?r" "?r < 1" by linarith+
  from d have "is_decimal (digit_char (nat ?d))" by (intro is_decimal_digit_char) linarith
  moreover have "list_all is_decimal (frac_digits k ?r)" using r by (rule Suc.IH)
  ultimately show ?case by (simp add: Let_def)
qed

lemma quiet_append [simp]: "quiet (xs @ ys) = (quiet xs \<and> quiet ys)"
  by (auto simp: quiet_def)

lemma quiet_Nil [simp]: "quiet []"
  by (simp add: quiet_def)

lemma quiet_Cons [simp]: "quiet (c # s) = (c \<noteq> backslash \<and> c \<noteq> lbracket \<and> quiet s)"
  by (auto simp: quiet_def)

lemma is_numeric_char_quiet: "is_numeric_char c \<Longrightarrow> c \<noteq> backslash \<and> c \<noteq> lbracket"
  by (auto simp: is_numeric_char_def is_decimal_def backslash_def lbracket_def)

lemma numeric_quiet: "list_all is_numeric_char s \<Longrightarrow> quiet s"
  by (auto simp: quiet_def list_all_iff dest: is_numeric_char_quiet)

lemma decimal_quiet: "list_all is_decimal s \<Longrightarrow> quiet s"
  by (rule numeric_quiet) (auto simp: list_all_iff is_numeric_char_def)

lemma quiet_str_int: "quiet (str_int i)"
proof -
  have "CHR ''-'' \<noteq> backslash" "CHR ''-'' \<noteq> lbracket" by (simp_all add: backslash_def lbracket_def)
  moreover have "quiet (str_nat n)" for n by (rule decimal_quiet) (rule str_nat_decimal)
  ultimately show ?thesis by (simp add: str_int_def)
qed

lemma quiet_str_float: "quiet (str_float x)"
proof -
  let ?a = "\<bar>x\<bar>"
  have "quiet (frac_digits 16 (?a - of_int \<lfloor>?a\<rfloor>))"
    by (rule decimal_quiet, rule frac_digits_decimal) linarith+
  moreover have "quiet (str_nat n)" for n by (rule decimal_quiet) (rule str_nat_decimal)
  moreover have "CHR ''-'' \<noteq> backslash" "CHR ''-'' \<noteq> lbracket" "CHR ''.'' \<noteq> backslash" "CHR ''.'' \<noteq> lbracket"
    by (simp_all add: backslash_def lbracket_def)
  ultimately show ?thesis unfolding str_float_def Let_def by simp
qed

lemma quiet_None: "quiet ''None''"
  by (simp add: backslash_def lbracket_def)

lemma quiet_str_opt_int: "quiet (str_opt_int v)"
  by (simp add: str_opt_int_def quiet_str_int backslash_def lbracket_def split: option.split)

lemma quiet_str_opt_float: "quiet (str_opt_float v)"
  by (simp add: str_opt_float_def quiet_str_float backslash_def lbracket_def split: option.split)


subsection \<open>When \<open>_get_formatted\<close> returns\<close>

lemma set_update_subset: "set (AList.update k v al) \<subseteq> insert (k, v) (set al)"
  by (induction al) auto

lemma find_values_Inr:
  assumes "\<forall>c\<in>set cs. \<exists>v. lookup w t c = Some v \<and> Q c v"
    and "\<forall>(c, v)\<in>set acc. Q c v"
  shows "\<exists>r. find_values w t cs acc = Inr r \<and> (\<forall>(c, v)\<in>set r. Q c v)"
  using assms
proof (induction cs arbitrary: acc)
  case Nil
  then show ?case by simp
next
  case (Cons c cs)
  from Cons.prems(1) obtain v where v: "lookup w t c = Some v" "Q c v" by auto
  have "\<forall>(c, v)\<in>set (AList.update c v acc). Q c v"
    using Cons.prems(2) v(2) set_update_subset [of c v acc] by auto
  moreover from Cons.prems(1) have "\<forall>c\<in>set cs. \<exists>v. lookup w t c = Some v \<and> Q c v" by simp
  ultimately show ?case using Cons.IH v(1) by simp
qed

lemma replace_all_Inr:
  "\<forall>(c, v)\<in>set r. plain_name c \<and> backslash \<notin> set v \<Longrightarrow> \<exists>s. replace_all r t = Inr s"
  by (induction r arbitrary: t) (auto simp: re_sub_def)

lemma get_formatted_Inr:
  assumes "\<forall>c\<in>set (findall t). \<exists>v. lookup w t c = Some v \<and> plain_name c \<and> backslash \<notin> set v"
  shows "\<exists>s. get_formatted w t = Inr s"
proof -
  from find_values_Inr [where Q = "\<lambda>c v. plain_name c \<and> backslash \<notin> set v" and acc = "[]", OF assms]
  obtain r where "find_values w t (findall t) [] = Inr r"
    "\<forall>(c, v)\<in>set r. plain_name c \<and> backslash \<notin> set v" by auto
  with replace_all_Inr [of r t] show ?thesis by (auto simp: get_formatted_def)
qed




lemma map_of_map_snd: "map_of (map (\<lambda>(k, v). (k, f v)) xs) k = map_option f (map_of xs k)"
  by (induction xs) auto

lemma tokens_table:
  "map (\<lambda>(t, st). (t, findall (message st))) widget_states =
    [(''initial'', [''num_problems'']),
     (''problem'', [''first_num'', ''second_num'', ''_user_input_buffer'']),
     (''correct'', []),
     (''incorrect'', []),
     (''end'', [''num_solved'', ''num_problems'', ''seconds_elapsed''])]"
  by code_simp

lemma message_tokens:
  assumes "map_of widget_states t = Some st"
  shows "set (findall (message st)) \<subseteq>
    {''num_problems'', ''first_num'', ''second_num'', ''_user_input_buffer'', ''num_solved'', ''seconds_elapsed''}"
proof -
  have "map_of (map (\<lambda>(t, st). (t, findall (message st))) widget_states) t = Some (findall (message st))"
    by (simp add: map_of_map_snd assms)
  then have "findall (message st) \<in> {[''num_problems''],
      [''first_num'', ''second_num'', ''_user_input_buffer''], [],
      [''num_solved'', ''num_problems'', ''seconds_elapsed'']}"
    unfolding tokens_table by (auto split: if_splits)
  then show ?thesis by auto
qed

lemma plain_names:
  "plain_name ''num_problems''" "plain_name ''first_num''" "plain_name ''second_num''"
  "plain_name ''_user_input_buffer''" "plain_name ''num_solved''" "plain_name ''seconds_elapsed''"
  by code_simp+

lemma lookup_attributes:
  "lookup w t ''num_problems'' = Some (str_int (num_problems w))"
  "lookup w t ''first_num'' = Some (str_opt_int (first_num w))"
  "lookup w t ''second_num'' = Some (str_opt_int (second_num w))"
  "lookup w t ''_user_input_buffer'' = Some (str_opt_str (user_input_buffer w))"
  "lookup w t ''num_solved'' = Some (str_opt_int (num_solved w))"
  "lookup w t ''seconds_elapsed'' = Some (str_opt_float (seconds_elapsed w))"
  by (simp_all add: lookup_def vars_self_def)

lemma buffer_text: "buffer_ok w \<Longrightarrow> backslash \<notin> set (str_opt_str (user_input_buffer w))"
  by (auto simp: buffer_ok_def str_opt_str_def backslash_def split: option.splits)

lemma quietD: "quiet s \<Longrightarrow> backslash \<notin> set s"
  by (simp add: quiet_def)

lemma attribute_ok:
  assumes "buffer_ok w"
    and "c \<in> {''num_problems'', ''first_num'', ''second_num'', ''_user_input_buffer'', ''num_solved'', ''seconds_elapsed''}"
  shows "\<exists>v. lookup w t c = Some v \<and> plain_name c \<and> backslash \<notin> set v"
proof -
  from assms(2) consider "c = ''num_problems''" | "c = ''first_num''" | "c = ''second_num''"
    | "c = ''_user_input_buffer''" | "c = ''num_solved''" | "c = ''seconds_elapsed''"
    by (elim insertE emptyE)
  then show ?thesis
  proof cases
    case 1
    show ?thesis unfolding 1
      by (intro exI conjI, rule lookup_attributes, rule plain_names, rule quietD, rule quiet_str_int)
  next
    case 2
    show ?thesis unfolding 2
      by (intro exI conjI, rule lookup_attributes, rule plain_names, rule quietD, rule quiet_str_opt_int)
  next
    case 3
    show ?thesis unfolding 3
      by (intro exI conjI, rule lookup_attributes, rule plain_names, rule quietD, rule quiet_str_opt_int)
  next
    case 4
    show ?thesis unfolding 4
      by (intro exI conjI, rule lookup_attributes, rule plain_names, rule buffer_text, rule assms(1))
  next
    case 5
    show ?thesis unfolding 5
      by (intro exI conjI, rule lookup_attributes, rule plain_names, rule quietD, rule quiet_str_opt_int)
  next
    case 6
    show ?thesis unfolding 6
      by (intro exI conjI, rule lookup_attributes, rule plain_names, rule quietD, rule quiet_str_opt_float)
  qed
qed


lemma five_templates_Inr:
  assumes "map_of widget_states t = Some st" and "buffer_ok w"
  shows "\<exists>s. get_formatted w (message st) = Inr s"
proof (rule get_formatted_Inr, rule ballI)
  fix c assume "c \<in> set (findall (message st))"
  then have "c \<in> {''num_problems'', ''first_num'', ''second_num'', ''_user_input_buffer'',
      ''num_solved'', ''seconds_elapsed''}"
    by (rule subsetD [OF message_tokens [OF assms(1)]])
  then show "\<exists>v. lookup w (message st) c = Some v \<and> plain_name c \<and> backslash \<notin> set v"
    by (rule attribute_ok [OF assms(2)])
qed




lemma scope_lookup_frame [simp]:
  "scope_lookup (w\<lparr>bindings := bs\<rparr>) t c = scope_lookup w t c"
  "scope_lookup (w\<lparr>text_var := s\<rparr>) t c = scope_lookup w t c"
  by (simp_all add: scope_lookup_def)

lemma vars_self_frame [simp]:
  "vars_self (w\<lparr>bindings := bs\<rparr>) = vars_self w"
  "vars_self (w\<lparr>text_var := s\<rparr>) = vars_self w"
  by (simp_all add: vars_self_def)

lemma lookup_frame [simp]:
  "lookup (w\<lparr>bindings := bs\<rparr>) t c = lookup w t c"
  "lookup (w\<lparr>text_var := s\<rparr>) t c = lookup w t c"
  by (simp_all add: lookup_def split: option.split)

lemma find_values_frame [simp]:
  "find_values (w\<lparr>bindings := bs\<rparr>) t cs acc = find_values w t cs acc"
  "find_values (w\<lparr>text_var := s\<rparr>) t cs acc = find_values w t cs acc"
  by (induction cs arbitrary: acc) (simp_all split: option.split)

lemma get_formatted_frame [simp]:
  "get_formatted (w\<lparr>bindings := bs\<rparr>) t = get_formatted w t"
  "get_formatted (w\<lparr>text_var := s\<rparr>) t = get_formatted w t"
  by (simp_all add: get_formatted_def)


lemma set_widget_state_Inr:
  assumes "map_of widget_states t = Some st"
    and "map_of widget_states (curr_widget_state w) = Some old"
    and "buffer_ok w"
  shows "\<exists>s. set_widget_state t w =
    Inr (w\<lparr>bindings := bind_routings (event_routings st) (unbind_routings (event_routings old) (bindings w)),
          text_var := s, curr_widget_state := t\<rparr>)"
proof -
  from five_templates_Inr [OF assms(1,3)] obtain s where "get_formatted w (message st) = Inr s" ..
  then show ?thesis using assms(1,2) by (intro exI [of _ s]) (simp add: set_widget_state_def Let_def)
qed

lemma refresh_text_Inr:
  assumes "map_of widget_states (curr_widget_state w) = Some st" and "buffer_ok w"
  shows "\<exists>s. refresh_text w = Inr (w\<lparr>text_var := s\<rparr>)"
proof -
  from five_templates_Inr [OF assms] obtain s where "get_formatted w (message st) = Inr s" ..
  then show ?thesis using assms(1) by (intro exI [of _ s]) (simp add: refresh_text_def)
qed

lemma state_bindings_values:
  "state_bindings ''initial'' = [(''<Button-1>'', Start_game), (''<Return>'', Start_game)]"
  "state_bindings ''problem'' =
     [(''<Key>'', On_keypress), (''<BackSpace>'', On_backspace), (''<Return>'', On_enter)]"
  "state_bindings ''correct'' = [(''<Button-1>'', Next_problem), (''<Return>'', Next_problem)]"
  "state_bindings ''incorrect'' = [(''<Button-1>'', Next_problem), (''<Return>'', Next_problem)]"
  "state_bindings ''end'' = [(''<Button-1>'', Start_game), (''<Return>'', Start_game)]"
  by code_simp+

lemma state_names:
  "map fst widget_states = [''initial'', ''problem'', ''correct'', ''incorrect'', ''end'']"
  by code_simp

lemma unbind_table:
  "list_all (\<lambda>(t, st). unbind_routings (event_routings st) (bind_routings (event_routings st) []) = [])
     widget_states"
  by code_simp

lemma unbind_state_bindings:
  assumes "map_of widget_states t = Some st"
  shows "unbind_routings (event_routings st) (state_bindings t) = []"
proof -
  from assms have "(t, st) \<in> set widget_states" by (rule map_of_SomeD)
  with unbind_table show ?thesis using assms by (auto simp: list_all_iff state_bindings_def)
qed

lemma numeric_buffer_ok: "buffer_numeric w \<Longrightarrow> buffer_ok w"
  by (auto simp: buffer_numeric_def buffer_ok_def split: option.splits dest!: numeric_quiet quietD)

lemma set_widget_state_result:
  assumes "map_of widget_states t = Some st"
    and "map_of widget_states (curr_widget_state w) \<noteq> None"
    and "buffer_ok w"
  obtains bs s where
    "set_widget_state t w = Inr (w\<lparr>bindings := bs, text_var := s, curr_widget_state := t\<rparr>)"
    "bindings w = state_bindings (curr_widget_state w) \<Longrightarrow> bs = state_bindings t"
proof -
  from assms(2) obtain old where old: "map_of widget_states (curr_widget_state w) = Some old" by auto
  from set_widget_state_Inr [OF assms(1) old assms(3)] obtain s where
    s: "set_widget_state t w =
      Inr (w\<lparr>bindings := bind_routings (event_routings st) (unbind_routings (event_routings old) (bindings w)),
            text_var := s, curr_widget_state := t\<rparr>)" ..
  have "bind_routings (event_routings st) (unbind_routings (event_routings old) (bindings w)) = state_bindings t"
    if "bindings w = state_bindings (curr_widget_state w)"
    using that unbind_state_bindings [OF old] assms(1) by (simp add: state_bindings_def)
  with s show ?thesis by (rule that)
qed

lemma randint_range: "randint a b r = Some x \<Longrightarrow> a \<le> x \<and> x \<le> b"
proof -
  assume r: "randint a b r = Some x"
  then have ab: "a \<le> b" and x: "x = a + int (r mod nat (b - a + 1))"
    by (auto simp: randint_def split: if_splits)
  have "r mod nat (b - a + 1) < nat (b - a + 1)" using ab by (intro mod_less_divisor) simp
  with ab x show ?thesis by linarith
qed

lemma randint_Some: "a \<le> b \<Longrightarrow> \<exists>x. randint a b r = Some x"
  by (simp add: randint_def)

lemma gen_factors_result:
  assumes "min_factor w \<le> max_factor w"
  obtains x y where "gen_factors d1 d2 w = Inr (w\<lparr>first_num := Some x, second_num := Some y\<rparr>)"
    "min_factor w \<le> x" "x \<le> max_factor w" "min_factor w \<le> y" "y \<le> max_factor w"
proof -
  from randint_Some [OF assms] obtain x y where
    xy: "randint (min_factor w) (max_factor w) d1 = Some x" "randint (min_factor w) (max_factor w) d2 = Some y"
    by blast
  then have "gen_factors d1 d2 w = Inr (w\<lparr>first_num := Some x, second_num := Some y\<rparr>)"
    by (simp add: gen_factors_def)
  then show ?thesis using randint_range [OF xy(1)] randint_range [OF xy(2)] by (intro that) auto
qed

lemma map_of_states:
  "map_of widget_states ''initial'' \<noteq> None" "map_of widget_states ''problem'' \<noteq> None"
  "map_of widget_states ''correct'' \<noteq> None" "map_of widget_states ''incorrect'' \<noteq> None"
  "map_of widget_states ''end'' \<noteq> None"
  by code_simp+

lemma display_problem_end:
  assumes "num_displayed w = Some (num_problems w)"
    and "start_time w = Some t0"
    and "map_of widget_states (curr_widget_state w) \<noteq> None"
    and "buffer_ok w"
  obtains bs s where
    "display_problem t d1 d2 w =
       Inr (w\<lparr>seconds_elapsed := Some (py_round1 (t - t0)), end_time := Some t,
             bindings := bs, text_var := s, curr_widget_state := ''end''\<rparr>)"
    "bindings w = state_bindings (curr_widget_state w) \<Longrightarrow> bs = state_bindings ''end''"
proof -
  let ?w = "w\<lparr>end_time := Some t, seconds_elapsed := Some (py_round1 (t - t0))\<rparr>"
  from map_of_states(5) obtain st where st: "map_of widget_states ''end'' = Some st" by auto
  have "map_of widget_states (curr_widget_state ?w) \<noteq> None" "buffer_ok ?w"
    using assms(3,4) by (simp_all add: buffer_ok_def)
  from set_widget_state_result [OF st this] obtain bs s where
    r: "set_widget_state ''end'' ?w = Inr (?w\<lparr>bindings := bs, text_var := s, curr_widget_state := ''end''\<rparr>)"
      "bindings ?w = state_bindings (curr_widget_state ?w) \<Longrightarrow> bs = state_bindings ''end''"
    by blast
  from r(1) assms(1,2) have "display_problem t d1 d2 w =
       Inr (w\<lparr>seconds_elapsed := Some (py_round1 (t - t0)), end_time := Some t,
             bindings := bs, text_var := s, curr_widget_state := ''end''\<rparr>)"
    by (simp add: display_problem_def Let_def)
  moreover from r(2) have "bindings w = state_bindings (curr_widget_state w) \<Longrightarrow> bs = state_bindings ''end''"
    by simp
  ultimately show ?thesis by (rule that)
qed

lemma display_problem_next:
  assumes "num_displayed w = Some d"
    and "d \<noteq> num_problems w"
    and "min_factor w \<le> max_factor w"
    and "map_of widget_states (curr_widget_state w) \<noteq> None"
    and "buffer_ok w"
  obtains x y bs s where
    "display_problem t d1 d2 w =
       Inr (w\<lparr>num_displayed := Some (d + 1), first_num := Some x, second_num := Some y,
             bindings := bs, text_var := s, curr_widget_state := ''problem''\<rparr>)"
    "min_factor w \<le> x" "x \<le> max_factor w" "min_factor w \<le> y" "y \<le> max_factor w"
    "bindings w = state_bindings (curr_widget_state w) \<Longrightarrow> bs = state_bindings ''problem''"
proof -
  from gen_factors_result [OF assms(3)] obtain x y where
    g: "gen_factors d1 d2 w = Inr (w\<lparr>first_num := Some x, second_num := Some y\<rparr>)"
    and xy: "min_factor w \<le> x" "x \<le> max_factor w" "min_factor w \<le> y" "y \<le> max_factor w"
    by blast
  let ?w = "w\<lparr>first_num := Some x, second_num := Some y\<rparr>"
  from map_of_states(2) obtain st where st: "map_of widget_states ''problem'' = Some st" by auto
  have "map_of widget_states (curr_widget_state ?w) \<noteq> None" "buffer_ok ?w"
    using assms(4,5) by (simp_all add: buffer_ok_def)
  from set_widget_state_result [OF st this] obtain bs s where
    r: "set_widget_state ''problem'' ?w = Inr (?w\<lparr>bindings := bs, text_var := s, curr_widget_state := ''problem''\<rparr>)"
      "bindings ?w = state_bindings (curr_widget_state ?w) \<Longrightarrow> bs = state_bindings ''problem''"
    by blast
  from g r(1) assms(1,2) have eq: "display_problem t d1 d2 w =
       Inr (w\<lparr>num_displayed := Some (d + 1), first_num := Some x, second_num := Some y,
             bindings := bs, text_var := s, curr_widget_state := ''problem''\<rparr>)"
    by (simp add: display_problem_def)
  from r(2) have "bindings w = state_bindings (curr_widget_state w) \<Longrightarrow> bs = state_bindings ''problem''"
    by simp
  with eq xy show ?thesis by (rule that)
qed

lemma session_okE:
  assumes "session_ok w"
  obtains s d b x y t0 where "num_solved w = Some s" "num_displayed w = Some d"
    "user_input_buffer w = Some b" "first_num w = Some x" "second_num w = Some y"
    "start_time w = Some t0" "0 \<le> s" "s \<le> d" "d \<le> num_problems w"
    "curr_widget_state w = ''problem'' \<Longrightarrow> s < d"
  using assms by (auto simp: session_ok_def counters_ok_def split: option.splits)

lemma session_okI:
  assumes "num_solved w = Some s" "num_displayed w = Some d"
    "user_input_buffer w \<noteq> None" "first_num w \<noteq> None" "second_num w \<noteq> None"
    "start_time w \<noteq> None" "0 \<le> s" "s \<le> d" "d \<le> num_problems w"
    "curr_widget_state w = ''problem'' \<Longrightarrow> s < d"
  shows "session_ok w"
  using assms by (auto simp: session_ok_def counters_ok_def)

lemma widget_invD:
  assumes "widget_inv w"
  shows "map_of widget_states (curr_widget_state w) \<noteq> None"
    and "bindings w = state_bindings (curr_widget_state w)"
    and "num_problems w = 5" and "min_factor w = 0" and "max_factor w = 10"
    and "buffer_numeric w" and "buffer_ok w"
    and "curr_widget_state w \<noteq> ''initial'' \<Longrightarrow> session_ok w"
  using assms by (auto simp: widget_inv_def intro: numeric_buffer_ok)

lemma unbind_routings_Nil: "unbind_routings routings [] = []"
proof -
  have inner: "fold (\<lambda>func_name. AList.delete e) funcs [] = []" for e :: string and funcs :: "handler list"
    by (induction funcs) simp_all
  have "fold (\<lambda>(event_name, funcs). fold (\<lambda>func_name. AList.delete event_name) funcs) routings [] = []"
    by (induction routings) (auto simp: inner)
  then show ?thesis by (simp add: unbind_routings_def)
qed

lemma MultiplicationWidget_result:
  obtains s where "MultiplicationWidget ov sv =
    Inr ((new_widget ov sv)\<lparr>bindings := state_bindings ''initial'', text_var := s\<rparr>)"
proof -
  let ?w = "new_widget ov sv"
  from map_of_states(1) obtain st where st: "map_of widget_states ''initial'' = Some st" by auto
  have c: "curr_widget_state ?w = ''initial''" "bindings ?w = []" by (simp_all add: new_widget_def)
  have "buffer_ok ?w" by (simp add: buffer_ok_def new_widget_def)
  from set_widget_state_Inr [OF st _ this, of st] st c obtain s where
    "set_widget_state ''initial'' ?w =
      Inr (?w\<lparr>bindings := bind_routings (event_routings st) (unbind_routings (event_routings st) []),
            text_var := s, curr_widget_state := ''initial''\<rparr>)" by auto
  then have "MultiplicationWidget ov sv =
      Inr (?w\<lparr>bindings := state_bindings ''initial'', text_var := s\<rparr>)"
    using st c(1) by (simp add: MultiplicationWidget_def Let_def unbind_routings_Nil state_bindings_def new_widget_def)
  then show ?thesis by (rule that)
qed

lemma MultiplicationWidget_inv:
  assumes "MultiplicationWidget ov sv = Inr w"
  shows "widget_inv w" and "curr_widget_state w = ''initial''"
proof -
  obtain s where "MultiplicationWidget ov sv =
    Inr ((new_widget ov sv)\<lparr>bindings := state_bindings ''initial'', text_var := s\<rparr>)"
    by (rule MultiplicationWidget_result)
  with assms have w: "w = (new_widget ov sv)\<lparr>bindings := state_bindings ''initial'', text_var := s\<rparr>"
    by simp
  show "curr_widget_state w = ''initial''" by (simp add: w new_widget_def)
  show "widget_inv w"
    using map_of_states(1) by (simp add: w widget_inv_def new_widget_def buffer_numeric_def)
qed

lemma start_game_result:
  assumes "num_problems w \<noteq> 0"
    and "min_factor w \<le> max_factor w"
    and "map_of widget_states (curr_widget_state w) \<noteq> None"
  obtains x y bs s where
    "start_game inp w =
       Inr (w\<lparr>num_solved := Some 0, num_displayed := Some 1, first_num := Some x, second_num := Some y,
             start_time := Some (clock inp), user_input_buffer := Some [],
             bindings := bs, text_var := s, curr_widget_state := ''problem''\<rparr>)"
    "min_factor w \<le> x" "x \<le> max_factor w" "min_factor w \<le> y" "y \<le> max_factor w"
    "bindings w = state_bindings (curr_widget_state w) \<Longrightarrow> bs = state_bindings ''problem''"
proof -
  let ?w = "(init_vars w)\<lparr>start_time := Some (clock inp)\<rparr>"
  have prems: "num_displayed ?w = Some 0" "0 \<noteq> num_problems ?w" "min_factor ?w \<le> max_factor ?w"
    "map_of widget_states (curr_widget_state ?w) \<noteq> None" "buffer_ok ?w"
    using assms by (simp_all add: init_vars_def buffer_ok_def)
  show ?thesis
  proof (rule display_problem_next [OF prems, of "clock inp" "draw1 inp" "draw2 inp"])
    fix x y bs s
    assume r: "display_problem (clock inp) (draw1 inp) (draw2 inp) ?w =
       Inr (?w\<lparr>num_displayed := Some (0 + 1), first_num := Some x, second_num := Some y,
             bindings := bs, text_var := s, curr_widget_state := ''problem''\<rparr>)"
      and xy: "min_factor ?w \<le> x" "x \<le> max_factor ?w" "min_factor ?w \<le> y" "y \<le> max_factor ?w"
      and bs: "bindings ?w = state_bindings (curr_widget_state ?w) \<Longrightarrow> bs = state_bindings ''problem''"
    from r have eq: "start_game inp w =
       Inr (w\<lparr>num_solved := Some 0, num_displayed := Some 1, first_num := Some x, second_num := Some y,
             start_time := Some (clock inp), user_input_buffer := Some [],
             bindings := bs, text_var := s, curr_widget_state := ''problem''\<rparr>)"
      by (simp add: start_game_def init_vars_def)
    from xy bs have "min_factor w \<le> x" "x \<le> max_factor w" "min_factor w \<le> y" "y \<le> max_factor w"
      "bindings w = state_bindings (curr_widget_state w) \<Longrightarrow> bs = state_bindings ''problem''"
      by (simp_all add: init_vars_def)
    with eq show thesis by (rule that)
  qed
qed

lemma start_game_inv:
  assumes "widget_inv w"
  obtains w' where "start_game inp w = Inr w'" "widget_inv w'" "curr_widget_state w' = ''problem''"
proof -
  note inv = widget_invD [OF assms]
  have cfg: "num_problems w \<noteq> 0" "min_factor w \<le> max_factor w" using inv(3-5) by simp_all
  show ?thesis
  proof (rule start_game_result [OF cfg inv(1), of inp])
    fix x y bs s
    let ?w' = "w\<lparr>num_solved := Some 0, num_displayed := Some 1, first_num := Some x, second_num := Some y,
             start_time := Some (clock inp), user_input_buffer := Some [],
             bindings := bs, text_var := s, curr_widget_state := ''problem''\<rparr>"
    assume r: "start_game inp w = Inr ?w'"
      and bs: "bindings w = state_bindings (curr_widget_state w) \<Longrightarrow> bs = state_bindings ''problem''"
    have "session_ok ?w'" using inv(3) by (intro session_okI [of _ 0 1]) simp_all
    then have "widget_inv ?w'"
      using inv(3-5) bs [OF inv(2)] map_of_states(2) by (simp add: widget_inv_def buffer_numeric_def)
    with r show thesis by (intro that [of ?w']) simp_all
  qed
qed

lemma on_keypress_inv:
  assumes "widget_inv w" and "curr_widget_state w = ''problem''"
  obtains w' where "on_keypress c w = Inr w'" "widget_inv w'" "curr_widget_state w' = ''problem''"
proof (cases "isnumeric c")
  case False
  then have "on_keypress c w = Inr w" by (simp add: on_keypress_def)
  with assms show ?thesis by (intro that [of w])
next
  case True
  note inv = widget_invD [OF assms(1)]
  from inv(8) assms(2) have so: "session_ok w" by simp
  then obtain b where b: "user_input_buffer w = Some b" by (rule session_okE)
  let ?w = "w\<lparr>user_input_buffer := Some (b @ c)\<rparr>"
  from inv(6) b True have num: "buffer_numeric ?w" by (simp add: buffer_numeric_def isnumeric_def)
  from inv(1) obtain st where "map_of widget_states (curr_widget_state ?w) = Some st" by auto
  from refresh_text_Inr [OF this numeric_buffer_ok [OF num]] obtain s where
    s: "refresh_text ?w = Inr (?w\<lparr>text_var := s\<rparr>)" ..
  with True b have r: "on_keypress c w = Inr (w\<lparr>user_input_buffer := Some (b @ c), text_var := s\<rparr>)"
    by (simp add: on_keypress_def)
  have "session_ok (w\<lparr>user_input_buffer := Some (b @ c), text_var := s\<rparr>)"
    by (rule session_okE [OF so], rule session_okI) simp_all
  then have "widget_inv (w\<lparr>user_input_buffer := Some (b @ c), text_var := s\<rparr>)"
    using inv(1-5) num by (simp add: widget_inv_def buffer_numeric_def)
  with r assms(2) show ?thesis by (intro that [of "w\<lparr>user_input_buffer := Some (b @ c), text_var := s\<rparr>"]) simp_all
qed

lemma on_backspace_inv:
  assumes "widget_inv w" and "curr_widget_state w = ''problem''"
  obtains w' where "on_backspace w = Inr w'" "widget_inv w'" "curr_widget_state w' = ''problem''"
proof -
  note inv = widget_invD [OF assms(1)]
  from inv(8) assms(2) have so: "session_ok w" by simp
  then obtain b where b: "user_input_buffer w = Some b" by (rule session_okE)
  let ?w = "w\<lparr>user_input_buffer := Some (butlast b)\<rparr>"
  have "set (butlast b) \<subseteq> set b" by (auto dest: in_set_butlastD)
  with inv(6) b have num: "buffer_numeric ?w" by (auto simp: buffer_numeric_def list_all_iff)
  from inv(1) obtain st where "map_of widget_states (curr_widget_state ?w) = Some st" by auto
  from refresh_text_Inr [OF this numeric_buffer_ok [OF num]] obtain s where
    s: "refresh_text ?w = Inr (?w\<lparr>text_var := s\<rparr>)" ..
  with b have r: "on_backspace w = Inr (w\<lparr>user_input_buffer := Some (butlast b), text_var := s\<rparr>)"
    by (simp add: on_backspace_def)
  have "session_ok (w\<lparr>user_input_buffer := Some (butlast b), text_var := s\<rparr>)"
    by (rule session_okE [OF so], rule session_okI) simp_all
  then have "widget_inv (w\<lparr>user_input_buffer := Some (butlast b), text_var := s\<rparr>)"
    using inv(1-5) num by (simp add: widget_inv_def buffer_numeric_def)
  with r assms(2) show ?thesis
    by (intro that [of "w\<lparr>user_input_buffer := Some (butlast b), text_var := s\<rparr>"]) simp_all
qed

lemma on_enter_empty: "user_input_buffer w = Some [] \<Longrightarrow> on_enter w = Inr w"
  by (simp add: on_enter_def)

lemma on_enter_ValueError:
  assumes "user_input_buffer w = Some b" "b \<noteq> []" "first_num w = Some x" "second_num w = Some y"
    and "py_int b = None"
  shows "on_enter w = Inl (ValueError, w)"
  using assms by (simp add: on_enter_def)

lemma on_enter_correct:
  assumes "user_input_buffer w = Some b" "b \<noteq> []" "first_num w = Some x" "second_num w = Some y"
    and "py_int b = Some (x * y)" "num_solved w = Some n"
    and "map_of widget_states (curr_widget_state w) \<noteq> None" "buffer_ok w"
  obtains bs s where
    "on_enter w = Inr (w\<lparr>num_solved := Some (n + 1), bindings := bs, text_var := s,
                         curr_widget_state := ''correct''\<rparr>)"
    "bindings w = state_bindings (curr_widget_state w) \<Longrightarrow> bs = state_bindings ''correct''"
proof -
  let ?w = "w\<lparr>num_solved := Some (n + 1)\<rparr>"
  from map_of_states(3) obtain st where st: "map_of widget_states ''correct'' = Some st" by auto
  have prems: "map_of widget_states (curr_widget_state ?w) \<noteq> None" "buffer_ok ?w"
    using assms(7,8) by (simp_all add: buffer_ok_def)
  show ?thesis
  proof (rule set_widget_state_result [OF st prems])
    fix bs s
    assume r: "set_widget_state ''correct'' ?w =
        Inr (?w\<lparr>bindings := bs, text_var := s, curr_widget_state := ''correct''\<rparr>)"
      and bs: "bindings ?w = state_bindings (curr_widget_state ?w) \<Longrightarrow> bs = state_bindings ''correct''"
    from r assms(1-6) have "on_enter w = Inr (w\<lparr>num_solved := Some (n + 1), bindings := bs, text_var := s,
                         curr_widget_state := ''correct''\<rparr>)"
      by (simp add: on_enter_def)
    moreover from bs have "bindings w = state_bindings (curr_widget_state w) \<Longrightarrow> bs = state_bindings ''correct''"
      by simp
    ultimately show thesis by (rule that)
  qed
qed

lemma on_enter_incorrect:
  assumes "user_input_buffer w = Some b" "b \<noteq> []" "first_num w = Some x" "second_num w = Some y"
    and "py_int b = Some answer" "answer \<noteq> x * y"
    and "map_of widget_states (curr_widget_state w) \<noteq> None" "buffer_ok w"
  obtains bs s where
    "on_enter w = Inr (w\<lparr>bindings := bs, text_var := s, curr_widget_state := ''incorrect''\<rparr>)"
    "bindings w = state_bindings (curr_widget_state w) \<Longrightarrow> bs = state_bindings ''incorrect''"
proof -
  from map_of_states(4) obtain st where st: "map_of widget_states ''incorrect'' = Some st" by auto
  show ?thesis
  proof (rule set_widget_state_result [OF st assms(7,8)])
    fix bs s
    assume r: "set_widget_state ''incorrect'' w =
        Inr (w\<lparr>bindings := bs, text_var := s, curr_widget_state := ''incorrect''\<rparr>)"
      and bs: "bindings w = state_bindings (curr_widget_state w) \<Longrightarrow> bs = state_bindings ''incorrect''"
    from r assms(1-6) have "on_enter w = Inr (w\<lparr>bindings := bs, text_var := s,
                         curr_widget_state := ''incorrect''\<rparr>)"
      by (simp add: on_enter_def)
    then show thesis using bs by (rule that)
  qed
qed

lemma on_enter_inv:
  assumes "widget_inv w" and "curr_widget_state w = ''problem''"
  obtains (returns) w' where "on_enter w = Inr w'" "widget_inv w'" "curr_widget_state w' \<noteq> ''initial''"
  | (raises) "on_enter w = Inl (ValueError, w)"
proof -
  note inv = widget_invD [OF assms(1)]
  from inv(8) assms(2) have so: "session_ok w" by simp
  show ?thesis
  proof (rule session_okE [OF so])
    fix s d b x y t0
    assume f: "num_solved w = Some s" "num_displayed w = Some d" "user_input_buffer w = Some b"
      "first_num w = Some x" "second_num w = Some y" "start_time w = Some t0"
      and c: "0 \<le> s" "s \<le> d" "d \<le> num_problems w"
      and p: "curr_widget_state w = ''problem'' \<Longrightarrow> s < d"
    from p assms(2) have sd: "s < d" by simp
    show thesis
    proof (cases "b = []")
      case True
      with f(3) have "on_enter w = Inr w" by (simp add: on_enter_empty)
      with assms show ?thesis by (intro returns [of w]) simp_all
    next
      case False
      show ?thesis
      proof (cases "py_int b")
        case None
        from on_enter_ValueError [OF f(3) False f(4,5) None] show ?thesis by (rule raises)
      next
        case (Some answer)
        show ?thesis
        proof (cases "answer = x * y")
          case True
          with Some have pi: "py_int b = Some (x * y)" by simp
          show ?thesis
          proof (rule on_enter_correct [OF f(3) False f(4,5) pi f(1) inv(1,7)])
            fix bs t
            let ?w' = "w\<lparr>num_solved := Some (s + 1), bindings := bs, text_var := t,
                         curr_widget_state := ''correct''\<rparr>"
            assume r: "on_enter w = Inr ?w'"
              and bs: "bindings w = state_bindings (curr_widget_state w) \<Longrightarrow> bs = state_bindings ''correct''"
            have "session_ok ?w'"
              using f c sd by (intro session_okI [of _ "s + 1" d]) simp_all
            then have "widget_inv ?w'"
              using inv(3-6) bs [OF inv(2)] map_of_states(3) by (simp add: widget_inv_def buffer_numeric_def)
            with r show thesis by (intro returns [of ?w']) simp_all
          qed
        next
          case F: False
          show ?thesis
          proof (rule on_enter_incorrect [OF f(3) False f(4,5) Some F inv(1,7)])
            fix bs t
            let ?w' = "w\<lparr>bindings := bs, text_var := t, curr_widget_state := ''incorrect''\<rparr>"
            assume r: "on_enter w = Inr ?w'"
              and bs: "bindings w = state_bindings (curr_widget_state w) \<Longrightarrow> bs = state_bindings ''incorrect''"
            have "session_ok ?w'"
              using f c by (intro session_okI [of _ s d]) simp_all
            then have "widget_inv ?w'"
              using inv(3-6) bs [OF inv(2)] map_of_states(4) by (simp add: widget_inv_def buffer_numeric_def)
            with r show thesis by (intro returns [of ?w']) simp_all
          qed
        qed
      qed
    qed
  qed
qed

lemma next_problem_end:
  assumes "num_displayed w = Some (num_problems w)"
    and "start_time w = Some t0"
    and "min_factor w \<le> max_factor w"
    and "map_of widget_states (curr_widget_state w) \<noteq> None"
  obtains x y bs s where
    "next_problem inp w =
       Inr (w\<lparr>seconds_elapsed := Some (py_round1 (clock inp - t0)), first_num := Some x, second_num := Some y,
             end_time := Some (clock inp), user_input_buffer := Some [],
             bindings := bs, text_var := s, curr_widget_state := ''end''\<rparr>)"
    "bindings w = state_bindings (curr_widget_state w) \<Longrightarrow> bs = state_bindings ''end''"
proof (rule gen_factors_result [OF assms(3), of "draw1 inp" "draw2 inp"])
  fix x y
  assume g: "gen_factors (draw1 inp) (draw2 inp) w = Inr (w\<lparr>first_num := Some x, second_num := Some y\<rparr>)"
  let ?w = "w\<lparr>first_num := Some x, second_num := Some y, user_input_buffer := Some []\<rparr>"
  have prems: "num_displayed ?w = Some (num_problems ?w)" "start_time ?w = Some t0"
    "map_of widget_states (curr_widget_state ?w) \<noteq> None" "buffer_ok ?w"
    using assms by (simp_all add: buffer_ok_def)
  show thesis
  proof (rule display_problem_end [OF prems, of "clock inp" "draw3 inp" "draw4 inp"])
    fix bs s
    assume r: "display_problem (clock inp) (draw3 inp) (draw4 inp) ?w =
       Inr (?w\<lparr>seconds_elapsed := Some (py_round1 (clock inp - t0)), end_time := Some (clock inp),
             bindings := bs, text_var := s, curr_widget_state := ''end''\<rparr>)"
      and bs: "bindings ?w = state_bindings (curr_widget_state ?w) \<Longrightarrow> bs = state_bindings ''end''"
    from g r have "next_problem inp w =
       Inr (w\<lparr>seconds_elapsed := Some (py_round1 (clock inp - t0)), first_num := Some x, second_num := Some y,
             end_time := Some (clock inp), user_input_buffer := Some [],
             bindings := bs, text_var := s, curr_widget_state := ''end''\<rparr>)"
      by (simp add: next_problem_def)
    moreover from bs have "bindings w = state_bindings (curr_widget_state w) \<Longrightarrow> bs = state_bindings ''end''"
      by simp
    ultimately show thesis by (rule that)
  qed
qed

lemma next_problem_next:
  assumes "num_displayed w = Some d"
    and "d \<noteq> num_problems w"
    and "min_factor w \<le> max_factor w"
    and "map_of widget_states (curr_widget_state w) \<noteq> None"
  obtains x y bs s where
    "next_problem inp w =
       Inr (w\<lparr>num_displayed := Some (d + 1), first_num := Some x, second_num := Some y,
             user_input_buffer := Some [],
             bindings := bs, text_var := s, curr_widget_state := ''problem''\<rparr>)"
    "min_factor w \<le> x" "x \<le> max_factor w" "min_factor w \<le> y" "y \<le> max_factor w"
    "bindings w = state_bindings (curr_widget_state w) \<Longrightarrow> bs = state_bindings ''problem''"
proof (rule gen_factors_result [OF assms(3), of "draw1 inp" "draw2 inp"])
  fix x0 y0
  assume g: "gen_factors (draw1 inp) (draw2 inp) w = Inr (w\<lparr>first_num := Some x0, second_num := Some y0\<rparr>)"
  let ?w = "w\<lparr>first_num := Some x0, second_num := Some y0, user_input_buffer := Some []\<rparr>"
  have prems: "num_displayed ?w = Some d" "d \<noteq> num_problems ?w" "min_factor ?w \<le> max_factor ?w"
    "map_of widget_states (curr_widget_state ?w) \<noteq> None" "buffer_ok ?w"
    using assms by (simp_all add: buffer_ok_def)
  show thesis
  proof (rule display_problem_next [OF prems, of "clock inp" "draw3 inp" "draw4 inp"])
    fix x y bs s
    assume r: "display_problem (clock inp) (draw3 inp) (draw4 inp) ?w =
       Inr (?w\<lparr>num_displayed := Some (d + 1), first_num := Some x, second_num := Some y,
             bindings := bs, text_var := s, curr_widget_state := ''problem''\<rparr>)"
      and xy: "min_factor ?w \<le> x" "x \<le> max_factor ?w" "min_factor ?w \<le> y" "y \<le> max_factor ?w"
      and bs: "bindings ?w = state_bindings (curr_widget_state ?w) \<Longrightarrow> bs = state_bindings ''problem''"
    from g r have eq: "next_problem inp w =
       Inr (w\<lparr>num_displayed := Some (d + 1), first_num := Some x, second_num := Some y,
             user_input_buffer := Some [],
             bindings := bs, text_var := s, curr_widget_state := ''problem''\<rparr>)"
      by (simp add: next_problem_def)
    from xy bs have "min_factor w \<le> x" "x \<le> max_factor w" "min_factor w \<le> y" "y \<le> max_factor w"
      "bindings w = state_bindings (curr_widget_state w) \<Longrightarrow> bs = state_bindings ''problem''"
      by simp_all
    with eq show thesis by (rule that)
  qed
qed

lemma next_problem_inv:
  assumes "widget_inv w" and "curr_widget_state w = ''correct'' \<or> curr_widget_state w = ''incorrect''"
  obtains w' where "next_problem inp w = Inr w'" "widget_inv w'" "curr_widget_state w' \<noteq> ''initial''"
proof -
  note inv = widget_invD [OF assms(1)]
  from assms(2) have ni: "curr_widget_state w \<noteq> ''initial''" and np: "curr_widget_state w \<noteq> ''problem''"
    by auto
  from inv(8) ni have so: "session_ok w" by simp
  have mm: "min_factor w \<le> max_factor w" using inv(4,5) by simp
  show ?thesis
  proof (rule session_okE [OF so])
    fix s d b x y t0
    assume f: "num_solved w = Some s" "num_displayed w = Some d" "user_input_buffer w = Some b"
      "first_num w = Some x" "second_num w = Some y" "start_time w = Some t0"
      and c: "0 \<le> s" "s \<le> d" "d \<le> num_problems w"
    show thesis
    proof (cases "d = num_problems w")
      case True
      with f(2) have nd: "num_displayed w = Some (num_problems w)" by simp
      show ?thesis
      proof (rule next_problem_end [OF nd f(6) mm inv(1), of inp])
        fix x' y' bs t
        let ?w' = "w\<lparr>seconds_elapsed := Some (py_round1 (clock inp - t0)), first_num := Some x',
             second_num := Some y', end_time := Some (clock inp), user_input_buffer := Some [],
             bindings := bs, text_var := t, curr_widget_state := ''end''\<rparr>"
        assume r: "next_problem inp w = Inr ?w'"
          and bs: "bindings w = state_bindings (curr_widget_state w) \<Longrightarrow> bs = state_bindings ''end''"
        have "session_ok ?w'" using f c by (intro session_okI [of _ s d]) simp_all
        then have "widget_inv ?w'"
          using inv(3-5) bs [OF inv(2)] map_of_states(5) by (simp add: widget_inv_def buffer_numeric_def)
        with r show thesis by (intro that [of ?w']) simp_all
      qed
    next
      case False
      show ?thesis
      proof (rule next_problem_next [OF f(2) False mm inv(1), of inp])
        fix x' y' bs t
        let ?w' = "w\<lparr>num_displayed := Some (d + 1), first_num := Some x', second_num := Some y',
             user_input_buffer := Some [],
             bindings := bs, text_var := t, curr_widget_state := ''problem''\<rparr>"
        assume r: "next_problem inp w = Inr ?w'"
          and bs: "bindings w = state_bindings (curr_widget_state w) \<Longrightarrow> bs = state_bindings ''problem''"
        have "session_ok ?w'" using f c False by (intro session_okI [of _ s "d + 1"]) simp_all
        then have "widget_inv ?w'"
          using inv(3-5) bs [OF inv(2)] map_of_states(2) by (simp add: widget_inv_def buffer_numeric_def)
        with r show thesis by (intro that [of ?w']) simp_all
      qed
    qed
  qed
qed

lemma state_cases:
  assumes "map_of widget_states t \<noteq> None"
  obtains "t = ''initial''" | "t = ''problem''" | "t = ''correct''" | "t = ''incorrect''" | "t = ''end''"
proof -
  from assms have "t \<in> set (map fst widget_states)" by (simp add: map_of_eq_None_iff)
  then have "t \<in> {''initial'', ''problem'', ''correct'', ''incorrect'', ''end''}"
    unfolding state_names by simp
  then show ?thesis using that by (elim insertE emptyE)
qed

lemma bound_handler_start:
  assumes "bindings w = [(''<Button-1>'', Start_game), (''<Return>'', Start_game)]"
  shows "bound_handler ev w = (case ev of Button_1 \<Rightarrow> Some Start_game | Return \<Rightarrow> Some Start_game | _ \<Rightarrow> None)"
  by (cases ev) (simp_all add: bound_handler_def assms List.map_filter_simps)

lemma bound_handler_next:
  assumes "bindings w = [(''<Button-1>'', Next_problem), (''<Return>'', Next_problem)]"
  shows "bound_handler ev w = (case ev of Button_1 \<Rightarrow> Some Next_problem | Return \<Rightarrow> Some Next_problem | _ \<Rightarrow> None)"
  by (cases ev) (simp_all add: bound_handler_def assms List.map_filter_simps)

lemma bound_handler_problem:
  assumes "bindings w = [(''<Key>'', On_keypress), (''<BackSpace>'', On_backspace), (''<Return>'', On_enter)]"
  shows "bound_handler ev w = (case ev of Button_1 \<Rightarrow> None | Return \<Rightarrow> Some On_enter
    | BackSpace \<Rightarrow> Some On_backspace | Key c \<Rightarrow> Some On_keypress)"
  by (cases ev) (simp_all add: bound_handler_def assms List.map_filter_simps)

lemma call_inv:
  assumes "widget_inv w" and "bound_handler ev w = Some h"
  obtains (returns) w' where "call h ev inp w = Inr w'" "widget_inv w'" "curr_widget_state w' \<noteq> ''initial''"
  | (raises) "h = On_enter" "call h ev inp w = Inl (ValueError, w)" "curr_widget_state w = ''problem''"
proof -
  note inv = widget_invD [OF assms(1)]
  from inv(1) show ?thesis
  proof (cases rule: state_cases)
    case 1
    with inv(2) have "bindings w = [(''<Button-1>'', Start_game), (''<Return>'', Start_game)]"
      by (simp add: state_bindings_values)
    from bound_handler_start [OF this, of ev] assms(2) have h: "h = Start_game"
      by (cases ev) simp_all
    show ?thesis
    proof (rule start_game_inv [OF assms(1), of inp])
      fix w' assume "start_game inp w = Inr w'" "widget_inv w'" "curr_widget_state w' = ''problem''"
      then show thesis using h by (intro returns [of w']) simp_all
    qed
  next
    case 2
    with inv(2) have "bindings w = [(''<Key>'', On_keypress), (''<BackSpace>'', On_backspace), (''<Return>'', On_enter)]"
      by (simp add: state_bindings_values)
    from bound_handler_problem [OF this, of ev] assms(2)
    consider "h = On_enter" | "h = On_backspace" | "h = On_keypress"
      by (cases ev) auto
    then show ?thesis
    proof cases
      case 1
      show ?thesis
      proof (rule on_enter_inv [OF assms(1) 2])
        fix w' assume "on_enter w = Inr w'" "widget_inv w'" "curr_widget_state w' \<noteq> ''initial''"
        then show thesis using 1 by (intro returns [of w']) simp_all
      next
        assume "on_enter w = Inl (ValueError, w)"
        then show thesis using 1 2 by (intro raises) simp_all
      qed
    next
      case 2
      show ?thesis
      proof (rule on_backspace_inv [OF assms(1) \<open>curr_widget_state w = ''problem''\<close>])
        fix w' assume "on_backspace w = Inr w'" "widget_inv w'" "curr_widget_state w' = ''problem''"
        then show thesis using 2 by (intro returns [of w']) simp_all
      qed
    next
      case 3
      show ?thesis
      proof (rule on_keypress_inv [OF assms(1) \<open>curr_widget_state w = ''problem''\<close>, of "event_char ev"])
        fix w' assume "on_keypress (event_char ev) w = Inr w'" "widget_inv w'" "curr_widget_state w' = ''problem''"
        then show thesis using 3 by (intro returns [of w']) simp_all
      qed
    qed
  next
    case 3
    with inv(2) have "bindings w = [(''<Button-1>'', Next_problem), (''<Return>'', Next_problem)]"
      by (simp add: state_bindings_values)
    from bound_handler_next [OF this, of ev] assms(2) have h: "h = Next_problem"
      by (cases ev) simp_all
    from 3 have c: "curr_widget_state w = ''correct'' \<or> curr_widget_state w = ''incorrect''" by simp
    show ?thesis
    proof (rule next_problem_inv [OF assms(1) c, of inp])
      fix w' assume "next_problem inp w = Inr w'" "widget_inv w'" "curr_widget_state w' \<noteq> ''initial''"
      then show thesis using h by (intro returns [of w']) simp_all
    qed
  next
    case 4
    with inv(2) have "bindings w = [(''<Button-1>'', Next_problem), (''<Return>'', Next_problem)]"
      by (simp add: state_bindings_values)
    from bound_handler_next [OF this, of ev] assms(2) have h: "h = Next_problem"
      by (cases ev) simp_all
    from 4 have c: "curr_widget_state w = ''correct'' \<or> curr_widget_state w = ''incorrect''" by simp
    show ?thesis
    proof (rule next_problem_inv [OF assms(1) c, of inp])
      fix w' assume "next_problem inp w = Inr w'" "widget_inv w'" "curr_widget_state w' \<noteq> ''initial''"
      then show thesis using h by (intro returns [of w']) simp_all
    qed
  next
    case 5
    with inv(2) have "bindings w = [(''<Button-1>'', Start_game), (''<Return>'', Start_game)]"
      by (simp add: state_bindings_values)
    from bound_handler_start [OF this, of ev] assms(2) have h: "h = Start_game"
      by (cases ev) simp_all
    show ?thesis
    proof (rule start_game_inv [OF assms(1), of inp])
      fix w' assume "start_game inp w = Inr w'" "widget_inv w'" "curr_widget_state w' = ''problem''"
      then show thesis using h by (intro returns [of w']) simp_all
    qed
  qed
qed

lemma dispatch_inv:
  assumes "widget_inv w"
  shows "widget_inv (dispatch ev inp w)"
proof (cases "bound_handler ev w")
  case None
  with assms show ?thesis by (simp add: dispatch_def)
next
  case (Some h)
  from assms Some show ?thesis
  proof (cases rule: call_inv [where inp = inp])
    case (returns w')
    with Some show ?thesis by (simp add: dispatch_def after_def)
  next
    case raises
    with Some assms show ?thesis by (simp add: dispatch_def after_def)
  qed
qed

lemma reachable_inv: "reachable w \<Longrightarrow> widget_inv w"
  by (induction rule: reachable.induct) (auto intro: MultiplicationWidget_inv dispatch_inv)

lemma started_widget_eq: "MultiplicationWidget [] [] = Inr started_widget"
  by code_simp

lemma reachable_started: "reachable started_widget"
  by (rule reachable.started [OF started_widget_eq])

lemma set_widget_state_config:
  "set_widget_state t w = Inr w' \<Longrightarrow> config w' = config w"
  "set_widget_state t w = Inl (e, w') \<Longrightarrow> config w' = config w"
  by (auto simp: set_widget_state_def config_def Let_def split: option.splits sum.splits)

lemma refresh_text_config:
  "refresh_text w = Inr w' \<Longrightarrow> config w' = config w"
  "refresh_text w = Inl (e, w') \<Longrightarrow> config w' = config w"
  by (auto simp: refresh_text_def config_def split: option.splits sum.splits)

lemma gen_factors_config:
  "gen_factors d1 d2 w = Inr w' \<Longrightarrow> config w' = config w"
  "gen_factors d1 d2 w = Inl (e, w') \<Longrightarrow> config w' = config w"
  by (auto simp: gen_factors_def config_def split: option.splits)

lemma config_update [simp]:
  "config (w\<lparr>end_time := a\<rparr>) = config w"
  "config (w\<lparr>seconds_elapsed := b\<rparr>) = config w"
  "config (w\<lparr>num_displayed := c\<rparr>) = config w"
  "config (w\<lparr>num_solved := d\<rparr>) = config w"
  "config (w\<lparr>user_input_buffer := e\<rparr>) = config w"
  "config (w\<lparr>start_time := f\<rparr>) = config w"
  by (simp_all add: config_def)

lemma display_problem_config:
  "display_problem t d1 d2 w = Inr w' \<Longrightarrow> config w' = config w"
  "display_problem t d1 d2 w = Inl (e, w') \<Longrightarrow> config w' = config w"
  by (auto simp: display_problem_def Let_def split: option.splits sum.splits if_splits
      dest!: set_widget_state_config gen_factors_config)

lemma start_game_config:
  "start_game inp w = Inr w' \<Longrightarrow> config w' = config w"
  "start_game inp w = Inl (e, w') \<Longrightarrow> config w' = config w"
  by (auto simp: start_game_def init_vars_def dest!: display_problem_config)

lemma on_keypress_config:
  "on_keypress c w = Inr w' \<Longrightarrow> config w' = config w"
  "on_keypress c w = Inl (e, w') \<Longrightarrow> config w' = config w"
  by (auto simp: on_keypress_def split: option.splits if_splits dest!: refresh_text_config)

lemma on_backspace_config:
  "on_backspace w = Inr w' \<Longrightarrow> config w' = config w"
  "on_backspace w = Inl (e, w') \<Longrightarrow> config w' = config w"
  by (auto simp: on_backspace_def split: option.splits dest!: refresh_text_config)

lemma on_enter_config:
  "on_enter w = Inr w' \<Longrightarrow> config w' = config w"
  "on_enter w = Inl (e, w') \<Longrightarrow> config w' = config w"
  by (auto simp: on_enter_def split: option.splits if_splits dest!: set_widget_state_config)

lemma next_problem_config:
  "next_problem inp w = Inr w' \<Longrightarrow> config w' = config w"
  "next_problem inp w = Inl (e, w') \<Longrightarrow> config w' = config w"
  by (auto simp: next_problem_def split: sum.splits dest!: display_problem_config gen_factors_config)

lemma call_config: "config (after (call h ev inp w)) = config w"
proof (cases "call h ev inp w")
  case (Inl p)
  obtain e w' where p: "p = (e, w')" by (cases p)
  with Inl have "config w' = config w"
    by (cases h)
      (auto dest: start_game_config on_keypress_config on_backspace_config on_enter_config next_problem_config)
  with Inl p show ?thesis by (simp add: after_def)
next
  case (Inr w')
  then have "config w' = config w"
    by (cases h)
      (auto dest: start_game_config on_keypress_config on_backspace_config on_enter_config next_problem_config)
  with Inr show ?thesis by (simp add: after_def)
qed

lemma reachable_run: "reachable w \<Longrightarrow> reachable (run evs inp w)"
  unfolding run_def by (induction evs arbitrary: w) (simp_all add: reachable.handled)








lemma py_round1_cases:
  obtains m where "py_round1 x = of_int m / 10" "\<bar>of_int m - 10 * x\<bar> \<le> 1 / 2" "0 \<le> x \<Longrightarrow> 0 \<le> m"
proof -
  let ?n = "\<lfloor>10 * x\<rfloor>"
  let ?r = "10 * x - of_int ?n"
  have r: "0 \<le> ?r" "?r < 1" by linarith+
  have n: "0 \<le> ?n" if "0 \<le> x" using that by simp
  consider "?r < 1 / 2" | "1 / 2 < ?r" | "?r = 1 / 2" "even ?n" | "?r = 1 / 2" "odd ?n" by linarith
  then show ?thesis
  proof cases
    case 1
    then have "py_round1 x = of_int ?n / 10" by (simp add: py_round1_def Let_def)
    moreover from 1 r have "\<bar>of_int ?n - 10 * x\<bar> \<le> 1 / 2" by linarith
    ultimately show ?thesis using n by (rule that)
  next
    case 2
    then have "py_round1 x = of_int (?n + 1) / 10" by (simp add: py_round1_def Let_def)
    moreover from 2 r have "\<bar>of_int (?n + 1) - 10 * x\<bar> \<le> 1 / 2" by simp
    moreover have "0 \<le> x \<Longrightarrow> 0 \<le> ?n + 1" using n by linarith
    ultimately show ?thesis by (rule that)
  next
    case 3
    then have "py_round1 x = of_int ?n / 10" by (simp add: py_round1_def Let_def)
    moreover from 3 have "\<bar>of_int ?n - 10 * x\<bar> \<le> 1 / 2" by linarith
    ultimately show ?thesis using n by (rule that)
  next
    case 4
    then have "py_round1 x = of_int (?n + 1) / 10" by (simp add: py_round1_def Let_def)
    moreover from 4 have "\<bar>of_int (?n + 1) - 10 * x\<bar> \<le> 1 / 2" by simp
    moreover have "0 \<le> x \<Longrightarrow> 0 \<le> ?n + 1" using n by linarith
    ultimately show ?thesis by (rule that)
  qed
qed

lemma py_round1_tenth: "\<exists>k. py_round1 x = of_int k / 10"
  by (rule py_round1_cases [of x]) blast

lemma py_round1_close: "\<bar>py_round1 x - x\<bar> \<le> 1 / 20"
proof (rule py_round1_cases [of x])
  fix m :: int
  assume m: "py_round1 x = of_int m / 10" and c: "\<bar>of_int m - 10 * x\<bar> \<le> 1 / 2"
  have "py_round1 x - x = (of_int m - 10 * x) / 10" by (simp add: m field_simps)
  then have "\<bar>py_round1 x - x\<bar> = \<bar>(of_int m - 10 * x) / 10\<bar>" by (simp only:)
  also have "\<dots> = \<bar>of_int m - 10 * x\<bar> / 10" by (simp only: abs_divide)
  finally show ?thesis using c by simp
qed

lemma py_round1_nonneg: "0 \<le> x \<Longrightarrow> 0 \<le> py_round1 x"
  by (rule py_round1_cases [of x]) simp

lemma five_answered_eq:
  "five_answered =
    \<lparr>num_problems = 5, seconds_elapsed = None, num_solved = Some 5, num_displayed = Some 5,
     first_num = Some 7, second_num = Some 8, start_time = Some 10, end_time = None,
     user_input_buffer = Some ''56'', min_factor = 0, max_factor = 10,
     curr_widget_state = ''correct'',
     text_var = ''That'' @ CHR 0x27 # ''s correct!'' @ newline # ''Click to continue.'',
     bindings = [(''<Button-1>'', Next_problem), (''<Return>'', Next_problem)],
     other_vars = [], scope_vars = []\<rparr>"
  by code_simp

lemma five_answered_values:
  "curr_widget_state five_answered = ''correct''"
  "num_displayed five_answered = Some 5"
  "num_problems five_answered = 5"
  "num_solved five_answered = Some 5"
  "start_time five_answered = Some 10"
  "min_factor five_answered = 0" "max_factor five_answered = 10"
  "user_input_buffer five_answered = Some ''56''"
  "bindings five_answered = [(''<Button-1>'', Next_problem), (''<Return>'', Next_problem)]"
  by (simp_all add: five_answered_eq)

lemma five_answered_ended:
  "dispatch Button_1 (example_inputs\<lparr>clock := 5\<rparr>) five_answered =
    \<lparr>num_problems = 5, seconds_elapsed = Some (- 5), num_solved = Some 5, num_displayed = Some 5,
     first_num = Some 7, second_num = Some 8, start_time = Some 10, end_time = Some 5,
     user_input_buffer = Some [], min_factor = 0, max_factor = 10,
     curr_widget_state = ''end'',
     text_var = ''You solved 5 out of 5 in -5.0 seconds!'' @ newline # ''Click to play again!'',
     bindings = [(''<Button-1>'', Start_game), (''<Return>'', Start_game)],
     other_vars = [], scope_vars = []\<rparr>"
  unfolding five_answered_eq by code_simp

lemma find_values_Inl:
  "find_values w t cs acc = Inl e \<Longrightarrow> \<exists>c\<in>set cs. lookup w t c = None \<and> e = bad_format_key c"
  by (induction cs arbitrary: acc) (auto split: option.splits)

lemma find_values_missing:
  "\<exists>c\<in>set cs. lookup w t c = None \<Longrightarrow> \<exists>c\<in>set cs. find_values w t cs acc = Inl (bad_format_key c)"
proof (induction cs arbitrary: acc)
  case Nil
  then show ?case by simp
next
  case (Cons c cs)
  show ?case
  proof (cases "lookup w t c")
    case None
    then show ?thesis by simp
  next
    case (Some v)
    with Cons.prems have "\<exists>c\<in>set cs. lookup w t c = None" by auto
    from Cons.IH [OF this, of "AList.update c v acc"] Some show ?thesis by auto
  qed
qed

lemma replace_all_Inl: "replace_all r t = Inl e \<Longrightarrow> e = Regex_outside_model"
  by (induction r arbitrary: t) (auto simp: re_sub_def split: if_splits sum.splits)

lemma lookup_None_iff:
  "lookup w t c = None \<longleftrightarrow> map_of (vars_self w) c = None \<and> scope_lookup w t c = None"
  by (simp add: lookup_def split: option.split)









lemma session_ended_eq:
  "session_ended =
    \<lparr>num_problems = 5, seconds_elapsed = Some 0, num_solved = Some 5, num_displayed = Some 5,
     first_num = Some 7, second_num = Some 8, start_time = Some 10, end_time = Some 10,
     user_input_buffer = Some [], min_factor = 0, max_factor = 10,
     curr_widget_state = ''end'',
     text_var = ''You solved 5 out of 5 in 0.0 seconds!'' @ newline # ''Click to play again!'',
     bindings = [(''<Button-1>'', Start_game), (''<Return>'', Start_game)],
     other_vars = [], scope_vars = []\<rparr>"
  unfolding session_ended_def five_answered_eq by code_simp

lemma session_ended_values:
  "curr_widget_state session_ended = ''end''"
  "num_problems session_ended = 5"
  "min_factor session_ended = 0" "max_factor session_ended = 10"
  "num_displayed session_ended = Some 5" "num_solved session_ended = Some 5"
  "bindings session_ended = [(''<Button-1>'', Start_game), (''<Return>'', Start_game)]"
  by (simp_all add: session_ended_eq)

lemma session_restarted:
  "start_game example_inputs session_ended =
    Inr \<lparr>num_problems = 5, seconds_elapsed = Some 0, num_solved = Some 0, num_displayed = Some 1,
     first_num = Some 7, second_num = Some 8, start_time = Some 10, end_time = Some 10,
     user_input_buffer = Some [], min_factor = 0, max_factor = 10,
     curr_widget_state = ''problem'',
     text_var = ''7 X 8'' @ [newline],
     bindings = [(''<Key>'', On_keypress), (''<BackSpace>'', On_backspace), (''<Return>'', On_enter)],
     other_vars = [], scope_vars = []\<rparr>"
  unfolding session_ended_eq by code_simp

lemma reachable_session_ended: "reachable session_ended"
  unfolding session_ended_def five_answered_def
  by (intro reachable.handled reachable_run reachable_started)

lemma scan_close_acc:
  "scan_close acc lastc cs = None \<Longrightarrow> scan_close acc' lastc cs = None"
  by (induction cs arbitrary: acc acc' lastc) (auto split: if_splits)

lemma scan_close_name:
  "scan_close acc lastc cs = Some (name, rest) \<Longrightarrow>
     \<exists>m. name = acc @ m \<and> cs = m @ rbracket # rest"
proof (induction cs arbitrary: acc lastc)
  case Nil
  then show ?case by simp
next
  case (Cons c cs)
  show ?case
  proof (cases "c = rbracket \<and> lastc \<noteq> backslash")
    case True
    with Cons.prems show ?thesis by auto
  next
    case False
    with Cons.prems have "scan_close (acc @ [c]) c cs = Some (name, rest)"
      by (auto split: if_splits)
    from Cons.IH [OF this] obtain m where "name = (acc @ [c]) @ m" "cs = m @ rbracket # rest" by auto
    then have "name = acc @ (c # m) \<and> c # cs = (c # m) @ rbracket # rest" by simp
    then show ?thesis by blast
  qed
qed

lemma match_token_name:
  assumes "match_token cs = Some (name, rest)"
  shows "cs = name @ rbracket # rest"
proof (cases cs)
  case Nil
  with assms show ?thesis by simp
next
  case (Cons c ds)
  with assms have "scan_close [c] c ds = Some (name, rest)" by (auto split: if_splits)
  from scan_close_name [OF this] Cons show ?thesis by auto
qed

lemma plain_nameD:
  assumes "plain_name n"
  shows "n \<noteq> []" "lbracket \<notin> set n" "rbracket \<notin> set n" "backslash \<notin> set n" "newline \<notin> set n"
  using assms
  by (auto simp: plain_name_def list_ex_iff regex_special_def lbracket_def rbracket_def)

lemma scan_close_plain:
  assumes "rbracket \<notin> set m" "backslash \<notin> set m" "newline \<notin> set m" "lastc \<noteq> backslash"
  shows "scan_close acc lastc (m @ rbracket # rest) = Some (acc @ m, rest)"
  using assms by (induction m arbitrary: acc lastc) auto

lemma match_token_plain:
  assumes "plain_name n"
  shows "match_token (n @ rbracket # rest) = Some (n, rest)"
proof -
  note p = plain_nameD [OF assms]
  from p(1) obtain a m where n: "n = a # m" by (cases n) auto
  with p have "rbracket \<notin> set m" "backslash \<notin> set m" "newline \<notin> set m" "a \<noteq> backslash" "a \<noteq> newline"
    by auto
  from scan_close_plain [OF this(1-4), of "[a]" rest] this(5) n show ?thesis by simp
qed

lemma no_match_no_head:
  assumes "match_token xs = None" and "plain_name n"
  shows "take (length n + 1) xs \<noteq> n @ [rbracket]"
proof
  assume t: "take (length n + 1) xs = n @ [rbracket]"
  have "xs = take (length n + 1) xs @ drop (length n + 1) xs" by simp
  with t have "xs = n @ rbracket # drop (length n + 1) xs" by simp
  with match_token_plain [OF assms(2), of "drop (length n + 1) xs"] assms(1) show False by simp
qed

lemma sub_scan_quiet:
  "quiet u \<Longrightarrow> sub_scan n v esc (u @ xs) = u @ sub_scan n v (esc \<and> u = []) xs"
proof (induction u arbitrary: esc)
  case Nil
  then show ?case by simp
next
  case (Cons c u)
  then have "c \<noteq> lbracket" "c \<noteq> backslash" "quiet u" by simp_all
  with Cons.IH [of "False"] show ?case
    by (simp add: sub_scan.simps)
qed

lemma sub_scan_head:
  "sub_scan n v False (lbracket # n @ rbracket # xs) = v @ sub_scan n v False xs"
  by (simp add: sub_scan.simps)

lemma plain_quiet: "plain_name n \<Longrightarrow> quiet n"
  using plain_nameD [of n] by (simp add: quiet_def)

lemma head_differs:
  assumes "plain_name n" "plain_name m" "m \<noteq> n"
  shows "take (length n + 1) (m @ rbracket # xs) \<noteq> n @ [rbracket]"
proof
  define ys where "ys = m @ rbracket # xs"
  assume "take (length n + 1) (m @ rbracket # xs) = n @ [rbracket]"
  then have t: "take (length n + 1) ys = n @ [rbracket]" by (simp only: ys_def)
  have m: "match_token ys = Some (m, xs)" unfolding ys_def by (rule match_token_plain [OF assms(2)])
  have "ys = take (length n + 1) ys @ drop (length n + 1) ys" by simp
  with t have "ys = n @ rbracket # drop (length n + 1) ys" by simp
  with match_token_plain [OF assms(1), of "drop (length n + 1) ys"]
  have "match_token ys = Some (n, drop (length n + 1) ys)" by simp
  with m show False using assms(3) by simp
qed

lemma sub_scan_other:
  assumes "plain_name n" "plain_name m" "m \<noteq> n"
  shows "sub_scan n v False (lbracket # m @ rbracket # xs) = lbracket # m @ rbracket # sub_scan n v False xs"
proof -
  have lb: "lbracket \<noteq> backslash" "rbracket \<noteq> lbracket" "rbracket \<noteq> backslash"
    by (simp_all add: lbracket_def rbracket_def backslash_def)
  have "sub_scan n v False (lbracket # m @ rbracket # xs) = lbracket # sub_scan n v False (m @ rbracket # xs)"
    using head_differs [OF assms, of xs] lb by (simp add: sub_scan.simps)
  also have "sub_scan n v False (m @ rbracket # xs) = m @ sub_scan n v False (rbracket # xs)"
    using sub_scan_quiet [OF plain_quiet [OF assms(2)], of n v False "rbracket # xs"] by simp
  also have "sub_scan n v False (rbracket # xs) = rbracket # sub_scan n v False xs"
    using lb by (simp add: sub_scan.simps)
  finally show ?thesis by simp
qed

lemma brackets_differ:
  "lbracket \<noteq> backslash" "rbracket \<noteq> lbracket" "rbracket \<noteq> backslash"
  "newline \<noteq> lbracket" "newline \<noteq> rbracket" "lbracket \<noteq> rbracket" "lbracket \<noteq> newline"
  by (simp_all add: lbracket_def rbracket_def backslash_def newline_def)

lemma no_close_no_token:
  assumes "scan_close acc c cs = None" and "c \<noteq> backslash"
  shows "match_token cs = None"
proof (cases cs)
  case Nil
  then show ?thesis by simp
next
  case (Cons d ds)
  show ?thesis
  proof (cases "d = newline")
    case True
    with Cons show ?thesis by simp
  next
    case False
    with assms Cons have "scan_close (acc @ [d]) d ds = None" by (auto split: if_splits)
    from scan_close_acc [OF this, of "[d]"] False Cons show ?thesis by simp
  qed
qed

lemma no_close_stable:
  "scan_close acc lastc cs = None \<Longrightarrow>
     scan_close acc' lastc (single_pass_from ctx (lastc = backslash) cs) = None"
proof (induction cs arbitrary: acc acc' lastc)
  case Nil
  then show ?case by (simp add: single_pass_from.simps)
next
  case (Cons c cs)
  from Cons.prems have nc: "\<not> (c = rbracket \<and> lastc \<noteq> backslash)"
    and rest: "c \<noteq> newline \<Longrightarrow> scan_close (acc @ [c]) c cs = None"
    by (auto split: if_splits)
  show ?case
  proof (cases "c = lbracket \<and> lastc \<noteq> backslash")
    case True
    then have c: "c = lbracket" by simp
    from rest c have r: "scan_close (acc @ [c]) c cs = None" by (simp add: brackets_differ)
    from no_close_no_token [OF r] c have "match_token cs = None" by (simp add: brackets_differ)
    with True have e: "single_pass_from ctx (lastc = backslash) (c # cs) = c # single_pass_from ctx False cs"
      by (simp add: single_pass_from.simps)
    from Cons.IH [OF r, of "acc' @ [c]"] c
    have "scan_close (acc' @ [c]) c (single_pass_from ctx False cs) = None" by (simp add: brackets_differ)
    with c show ?thesis unfolding e by (simp add: brackets_differ)
  next
    case False
    then have e: "single_pass_from ctx (lastc = backslash) (c # cs) =
        c # single_pass_from ctx (c = backslash) cs"
      by (auto simp: single_pass_from.simps)
    show ?thesis
    proof (cases "c = newline")
      case True
      then show ?thesis unfolding e by (simp add: brackets_differ)
    next
      case n: False
      from Cons.IH [OF rest [OF n], of "acc' @ [c]"] nc n show ?thesis unfolding e by simp
    qed
  qed
qed

lemma no_token_stable:
  assumes "match_token cs = None"
  shows "match_token (single_pass_from ctx False cs) = None"
proof (cases cs)
  case Nil
  then show ?thesis by (simp add: single_pass_from.simps)
next
  case (Cons d ds)
  show ?thesis
  proof (cases "d = newline")
    case True
    with Cons show ?thesis by (simp add: single_pass_from.simps brackets_differ)
  next
    case False
    with assms Cons have sc: "scan_close [d] d ds = None" by simp
    show ?thesis
    proof (cases "d = lbracket")
      case True
      from no_close_no_token [OF sc] True have "match_token ds = None" by (simp add: brackets_differ)
      with True Cons have e: "single_pass_from ctx False cs = d # single_pass_from ctx False ds"
        by (simp add: single_pass_from.simps)
      from no_close_stable [OF sc, of "[d]" ctx] True
      have "scan_close [d] d (single_pass_from ctx False ds) = None" by (simp add: brackets_differ)
      with False show ?thesis unfolding e by simp
    next
      case l: False
      with Cons have e: "single_pass_from ctx False cs = d # single_pass_from ctx (d = backslash) ds"
        by (simp add: single_pass_from.simps)
      from no_close_stable [OF sc, of "[d]" ctx] False show ?thesis unfolding e by simp
    qed
  qed
qed

lemma sub_scan_single_pass:
  assumes "plain_name n" and "ctx n = None" and "\<forall>m u. ctx m = Some u \<longrightarrow> quiet u"
    and "\<forall>m\<in>set (findall_from esc s). plain_name m"
  shows "sub_scan n v esc (single_pass_from ctx esc s) = single_pass_from (ctx(n \<mapsto> v)) esc s"
  using assms(4)
proof (induction esc s rule: findall_from.induct)
  case (1 esc)
  show ?case by (simp add: single_pass_from.simps sub_scan.simps)
next
  case (2 esc c cs)
  note toks = "2.prems"
  show ?case
  proof (cases "c = lbracket \<and> \<not> esc")
    case True
    then have c: "c = lbracket" and e: "esc = False" by simp_all
    show ?thesis
    proof (cases "match_token cs")
      case None
      from toks True None have "\<forall>m\<in>set (findall_from False cs). plain_name m"
        by (simp add: findall_from.simps)
      from "2.IH"(1) [OF True None this]
      have ih: "sub_scan n v False (single_pass_from ctx False cs) =
          single_pass_from (ctx(n \<mapsto> v)) False cs" .
      have nt: "match_token (single_pass_from ctx False cs) = None" by (rule no_token_stable [OF None])
      have "sub_scan n v esc (single_pass_from ctx esc (c # cs)) =
          sub_scan n v False (lbracket # single_pass_from ctx False cs)"
        using True None by (simp add: single_pass_from.simps)
      also have "\<dots> = lbracket # sub_scan n v False (single_pass_from ctx False cs)"
        using no_match_no_head [OF nt assms(1)] by (simp add: sub_scan.simps brackets_differ)
      also have "\<dots> = lbracket # single_pass_from (ctx(n \<mapsto> v)) False cs" by (simp only: ih)
      also have "\<dots> = single_pass_from (ctx(n \<mapsto> v)) esc (c # cs)"
        using True None by (simp add: single_pass_from.simps)
      finally show ?thesis .
    next
      case (Some p)
      note mt = Some
      obtain name rest where p: "p = (name, rest)" by (cases p)
      from toks True mt p have pn: "plain_name name"
        and tr: "\<forall>m\<in>set (findall_from False rest). plain_name m"
        by (simp_all add: findall_from.simps)
      from "2.IH"(2) [OF True mt p [symmetric] tr]
      have ih: "sub_scan n v False (single_pass_from ctx False rest) =
          single_pass_from (ctx(n \<mapsto> v)) False rest" .
      show ?thesis
      proof (cases "ctx name")
        case (Some u)
        with assms(3) have q: "quiet u" by blast
        from Some assms(2) have ne: "name \<noteq> n" by auto
        have "sub_scan n v esc (single_pass_from ctx esc (c # cs)) =
            sub_scan n v False (u @ single_pass_from ctx False rest)"
          using True mt p Some by (simp add: single_pass_from.simps)
        also have "\<dots> = u @ sub_scan n v False (single_pass_from ctx False rest)"
          using sub_scan_quiet [OF q, of n v False] by simp
        also have "\<dots> = u @ single_pass_from (ctx(n \<mapsto> v)) False rest" by (simp only: ih)
        also have "\<dots> = single_pass_from (ctx(n \<mapsto> v)) esc (c # cs)"
          using True mt p Some ne by (simp add: single_pass_from.simps)
        finally show ?thesis .
      next
        case None
        have l: "sub_scan n v esc (single_pass_from ctx esc (c # cs)) =
            sub_scan n v False (lbracket # name @ rbracket # single_pass_from ctx False rest)"
          using True mt p None by (simp add: single_pass_from.simps)
        show ?thesis
        proof (cases "name = n")
          case True
          have "sub_scan n v False (lbracket # name @ rbracket # single_pass_from ctx False rest) =
              v @ sub_scan n v False (single_pass_from ctx False rest)"
            unfolding True by (rule sub_scan_head)
          also have "\<dots> = v @ single_pass_from (ctx(n \<mapsto> v)) False rest" by (simp only: ih)
          also have "\<dots> = single_pass_from (ctx(n \<mapsto> v)) esc (c # cs)"
            using c e mt p True by (simp add: single_pass_from.simps)
          finally show ?thesis using l by (simp only:)
        next
          case False
          have "sub_scan n v False (lbracket # name @ rbracket # single_pass_from ctx False rest) =
              lbracket # name @ rbracket # sub_scan n v False (single_pass_from ctx False rest)"
            by (rule sub_scan_other [OF assms(1) pn False])
          also have "\<dots> = lbracket # name @ rbracket # single_pass_from (ctx(n \<mapsto> v)) False rest"
            by (simp only: ih)
          also have "\<dots> = single_pass_from (ctx(n \<mapsto> v)) esc (c # cs)"
            using c e mt p None False by (simp add: single_pass_from.simps)
          finally show ?thesis using l by (simp only:)
        qed
      qed
    qed
  next
    case False
    with toks have "\<forall>m\<in>set (findall_from (c = backslash) cs). plain_name m"
      by (auto simp: findall_from.simps)
    from "2.IH"(3) [OF False this]
    have ih: "sub_scan n v (c = backslash) (single_pass_from ctx (c = backslash) cs) =
        single_pass_from (ctx(n \<mapsto> v)) (c = backslash) cs" .
    from False have e1: "single_pass_from ctx esc (c # cs) = c # single_pass_from ctx (c = backslash) cs"
      and e2: "single_pass_from (ctx(n \<mapsto> v)) esc (c # cs) =
        c # single_pass_from (ctx(n \<mapsto> v)) (c = backslash) cs"
      by (auto simp: single_pass_from.simps)
    from False have "sub_scan n v esc (c # single_pass_from ctx (c = backslash) cs) =
        c # sub_scan n v (c = backslash) (single_pass_from ctx (c = backslash) cs)"
      by (auto simp: sub_scan.simps)
    then show ?thesis unfolding e1 e2 by (simp only: ih)
  qed
qed

lemma single_pass_from_empty: "single_pass_from Map.empty esc s = s"
proof (induction esc s rule: findall_from.induct)
  case (1 esc)
  show ?case by (simp add: single_pass_from.simps)
next
  case (2 esc c cs)
  show ?case
  proof (cases "c = lbracket \<and> \<not> esc")
    case True
    show ?thesis
    proof (cases "match_token cs")
      case None
      with True "2.IH"(1) [OF True None] show ?thesis by (simp add: single_pass_from.simps)
    next
      case (Some p)
      obtain name rest where p: "p = (name, rest)" by (cases p)
      from match_token_name Some p have "cs = name @ rbracket # rest" by simp
      with True Some p "2.IH"(2) [OF True Some p [symmetric]] show ?thesis
        by (simp add: single_pass_from.simps)
    qed
  next
    case False
    with "2.IH"(3) [OF False] show ?thesis by (auto simp: single_pass_from.simps)
  qed
qed

lemma single_pass_from_cong:
  "\<forall>m\<in>set (findall_from esc s). ctx m = ctx' m \<Longrightarrow>
     single_pass_from ctx esc s = single_pass_from ctx' esc s"
proof (induction esc s rule: findall_from.induct)
  case (1 esc)
  show ?case by (simp add: single_pass_from.simps)
next
  case (2 esc c cs)
  note toks = "2.prems"
  show ?case
  proof (cases "c = lbracket \<and> \<not> esc")
    case True
    show ?thesis
    proof (cases "match_token cs")
      case None
      from toks True None have "\<forall>m\<in>set (findall_from False cs). ctx m = ctx' m"
        by (simp add: findall_from.simps)
      from "2.IH"(1) [OF True None this] True None show ?thesis by (simp add: single_pass_from.simps)
    next
      case (Some p)
      obtain name rest where p: "p = (name, rest)" by (cases p)
      from toks True Some p have n: "ctx name = ctx' name"
        and "\<forall>m\<in>set (findall_from False rest). ctx m = ctx' m"
        by (simp_all add: findall_from.simps)
      from "2.IH"(2) [OF True Some p [symmetric] this(2)] True Some p n show ?thesis
        by (simp add: single_pass_from.simps)
    qed
  next
    case False
    with toks have "\<forall>m\<in>set (findall_from (c = backslash) cs). ctx m = ctx' m"
      by (auto simp: findall_from.simps)
    from "2.IH"(3) [OF False this] False show ?thesis by (auto simp: single_pass_from.simps)
  qed
qed

lemma replace_all_single_pass:
  assumes "\<forall>m\<in>set (findall_from False t). plain_name m"
  shows "distinct (map fst rs) \<Longrightarrow> \<forall>(c, v)\<in>set rs. plain_name c \<and> quiet v \<Longrightarrow>
    \<forall>c\<in>fst ` set rs. ctx c = None \<Longrightarrow> \<forall>m u. ctx m = Some u \<longrightarrow> quiet u \<Longrightarrow>
    replace_all rs (single_pass_from ctx False t) = Inr (single_pass_from (ctx ++ map_of rs) False t)"
proof (induction rs arbitrary: ctx)
  case Nil
  then show ?case by simp
next
  case (Cons a rs)
  obtain n v where a: "a = (n, v)" by (cases a)
  from Cons.prems(2) a have pn: "plain_name n" and qv: "quiet v" by simp_all
  from Cons.prems(3) a have cn: "ctx n = None" by simp
  from Cons.prems(1) a have d: "distinct (map fst rs)" and nn: "n \<notin> fst ` set rs" by simp_all
  have step: "sub_scan n v False (single_pass_from ctx False t) = single_pass_from (ctx(n \<mapsto> v)) False t"
    by (rule sub_scan_single_pass [OF pn cn Cons.prems(4) assms])
  have p2: "\<forall>(c, v)\<in>set rs. plain_name c \<and> quiet v" using Cons.prems(2) by simp
  have p3: "\<forall>c\<in>fst ` set rs. (ctx(n \<mapsto> v)) c = None" using Cons.prems(3) nn by auto
  have p4: "\<forall>m u. (ctx(n \<mapsto> v)) m = Some u \<longrightarrow> quiet u" using Cons.prems(4) qv by auto
  have ih: "replace_all rs (single_pass_from (ctx(n \<mapsto> v)) False t) =
      Inr (single_pass_from (ctx(n \<mapsto> v) ++ map_of rs) False t)"
    by (rule Cons.IH [OF d p2 p3 p4])
  from nn have "map_of rs n = None" by (simp add: map_of_eq_None_iff)
  then have m: "ctx(n \<mapsto> v) ++ map_of rs = ctx ++ map_of ((n, v) # rs)"
    by (intro ext) (simp add: map_add_def split: option.split)
  from qv have "backslash \<notin> set v" by (simp add: quiet_def)
  with pn have "re_sub n v (single_pass_from ctx False t) = Inr (sub_scan n v False (single_pass_from ctx False t))"
    by (simp add: re_sub_def)
  then have "replace_all ((n, v) # rs) (single_pass_from ctx False t) =
      replace_all rs (sub_scan n v False (single_pass_from ctx False t))" by simp
  also have "\<dots> = replace_all rs (single_pass_from (ctx(n \<mapsto> v)) False t)" by (simp only: step)
  also have "\<dots> = Inr (single_pass_from (ctx(n \<mapsto> v) ++ map_of rs) False t)" by (rule ih)
  also have "\<dots> = Inr (single_pass_from (ctx ++ map_of ((n, v) # rs)) False t)" by (simp only: m)
  finally show ?case unfolding a .
qed

lemma find_values_distinct:
  "find_values w t cs acc = Inr r \<Longrightarrow> distinct (map fst acc) \<Longrightarrow> distinct (map fst r)"
proof (induction cs arbitrary: acc)
  case Nil
  then show ?case by simp
next
  case (Cons c cs)
  from Cons.prems(1) obtain v where v: "lookup w t c = Some v"
    and r: "find_values w t cs (AList.update c v acc) = Inr r"
    by (auto split: option.splits)
  from Cons.prems(2) have "distinct (map fst (AList.update c v acc))" by (rule distinct_update)
  from Cons.IH [OF r this] show ?case .
qed

lemma find_values_map_of:
  "find_values w t cs acc = Inr r \<Longrightarrow>
     map_of r c = (if c \<in> set cs then lookup w t c else map_of acc c)"
proof (induction cs arbitrary: acc)
  case Nil
  then show ?case by simp
next
  case (Cons a cs)
  from Cons.prems obtain v where v: "lookup w t a = Some v"
    and r: "find_values w t cs (AList.update a v acc) = Inr r"
    by (auto split: option.splits)
  from Cons.IH [OF r] v show ?case by (simp add: update_conv')
qed

lemma get_formatted_single_pass:
  assumes "\<forall>c\<in>set (findall t). \<exists>v. lookup w t c = Some v \<and> plain_name c \<and> quiet v"
  shows "get_formatted w t = Inr (single_pass (lookup w t) t)"
proof -
  from find_values_Inr [where Q = "\<lambda>c v. plain_name c \<and> quiet v" and acc = "[]", OF assms]
  obtain r where r: "find_values w t (findall t) [] = Inr r"
    and q: "\<forall>(c, v)\<in>set r. plain_name c \<and> quiet v" by auto
  from find_values_distinct [OF r] have d: "distinct (map fst r)" by simp
  from assms have pl: "\<forall>m\<in>set (findall_from False t). plain_name m" by (auto simp: findall_def)
  have "replace_all r (single_pass_from Map.empty False t) =
      Inr (single_pass_from (Map.empty ++ map_of r) False t)"
    by (rule replace_all_single_pass [OF pl d q]) simp_all
  then have "replace_all r t = Inr (single_pass_from (map_of r) False t)"
    by (simp add: single_pass_from_empty)
  moreover have "single_pass_from (map_of r) False t = single_pass_from (lookup w t) False t"
    by (rule single_pass_from_cong) (simp add: find_values_map_of [OF r] findall_def)
  ultimately show ?thesis using r by (simp add: get_formatted_def single_pass_def)
qed

lemma find_values_first_missing:
  "List.find (\<lambda>c. lookup w t c = None) cs = Some c \<Longrightarrow>
     find_values w t cs acc = Inl (bad_format_key c)"
  by (induction cs arbitrary: acc) (auto split: if_splits option.splits)

section \<open>The claims\<close>

text \<open>
  C1.  In every state that the event loop can reach, the binding table of the window is
  the table of one state, the current one.  Every transition \<open>set_widget_state\<close> from
  such a state to any of the states of the table first unbinds all events of the
  state left (the binding table is then empty) and then binds the events of the state
  entered, so that afterwards the table is that of the new current state.
\<close>

theorem one_state_bound:
  assumes "reachable w"
  shows "bindings w = state_bindings (curr_widget_state w) \<and>
    (\<forall>t\<in>set (map fst widget_states). \<exists>old s.
        map_of widget_states (curr_widget_state w) = Some old
      \<and> unbind_routings (event_routings old) (bindings w) = []
      \<and> set_widget_state t w =
          Inr (w\<lparr>bindings := state_bindings t, text_var := s, curr_widget_state := t\<rparr>))"
proof (intro conjI ballI)
  note inv = widget_invD [OF reachable_inv [OF assms]]
  show b: "bindings w = state_bindings (curr_widget_state w)" by (rule inv(2))
  fix t assume "t \<in> set (map fst widget_states)"
  then have "map_of widget_states t \<noteq> None" by (simp add: map_of_eq_None_iff)
  then obtain new where new: "map_of widget_states t = Some new" by auto
  from inv(1) obtain old where old: "map_of widget_states (curr_widget_state w) = Some old" by auto
  from set_widget_state_Inr [OF new old inv(7)] obtain s where
    s: "set_widget_state t w =
      Inr (w\<lparr>bindings := bind_routings (event_routings new) (unbind_routings (event_routings old) (bindings w)),
            text_var := s, curr_widget_state := t\<rparr>)" ..
  have u: "unbind_routings (event_routings old) (bindings w) = []"
    using unbind_state_bindings [OF old] b by simp
  with s new have "set_widget_state t w =
      Inr (w\<lparr>bindings := state_bindings t, text_var := s, curr_widget_state := t\<rparr>)"
    by (simp add: state_bindings_def)
  with old u show "\<exists>old s. map_of widget_states (curr_widget_state w) = Some old
      \<and> unbind_routings (event_routings old) (bindings w) = []
      \<and> set_widget_state t w =
          Inr (w\<lparr>bindings := state_bindings t, text_var := s, curr_widget_state := t\<rparr>)"
    by (intro exI [of _ old] exI [of _ s]) simp
qed

theorem one_state_bound_witness:
  "reachable started_widget \<and> ''problem'' \<in> set (map fst widget_states)
   \<and> bindings started_widget = [(''<Button-1>'', Start_game), (''<Return>'', Start_game)]
   \<and> (\<exists>s. set_widget_state ''problem'' started_widget =
        Inr (started_widget\<lparr>bindings :=
               [(''<Key>'', On_keypress), (''<BackSpace>'', On_backspace), (''<Return>'', On_enter)],
             text_var := s, curr_widget_state := ''problem''\<rparr>))"
proof -
  have p: "''problem'' \<in> set (map fst widget_states)" by (simp add: state_names)
  have c: "curr_widget_state started_widget = ''initial''"
    using MultiplicationWidget_inv(2) [OF started_widget_eq] .
  note t = one_state_bound [OF reachable_started]
  from t have "bindings started_widget = state_bindings (curr_widget_state started_widget)" ..
  then have b: "bindings started_widget = [(''<Button-1>'', Start_game), (''<Return>'', Start_game)]"
    by (simp add: c state_bindings_values)
  from t have "\<forall>t\<in>set (map fst widget_states). \<exists>old s.
        map_of widget_states (curr_widget_state started_widget) = Some old
      \<and> unbind_routings (event_routings old) (bindings started_widget) = []
      \<and> set_widget_state t started_widget =
          Inr (started_widget\<lparr>bindings := state_bindings t, text_var := s, curr_widget_state := t\<rparr>)" ..
  from bspec [OF this p] obtain s where "set_widget_state ''problem'' started_widget =
          Inr (started_widget\<lparr>bindings := state_bindings ''problem'', text_var := s,
                curr_widget_state := ''problem''\<rparr>)" by auto
  then have "\<exists>s. set_widget_state ''problem'' started_widget =
        Inr (started_widget\<lparr>bindings :=
               [(''<Key>'', On_keypress), (''<BackSpace>'', On_backspace), (''<Return>'', On_enter)],
             text_var := s, curr_widget_state := ''problem''\<rparr>)"
    by (intro exI [of _ s]) (simp add: state_bindings_values)
  with reachable_started p b show ?thesis by simp
qed

text \<open>
  C2.  After every call of a handler that an event of the window triggers, whether the
  handler returns or raises, the counters are set and
  \<open>0 \<le> num_solved \<le> _num_displayed \<le> num_problems\<close>.
\<close>

theorem counters_in_order:
  assumes "reachable w" and "bound_handler ev w = Some h"
  shows "\<exists>s d. num_solved (after (call h ev inp w)) = Some s
     \<and> num_displayed (after (call h ev inp w)) = Some d
     \<and> 0 \<le> s \<and> s \<le> d \<and> d \<le> num_problems (after (call h ev inp w))"
proof -
  have "session_ok (after (call h ev inp w))"
    using reachable_inv [OF assms(1)] assms(2)
  proof (cases rule: call_inv [where inp = inp])
    case (returns w')
    then show ?thesis using widget_invD(8) [of w'] by (simp add: after_def)
  next
    case raises
    then show ?thesis using widget_invD(8) [OF reachable_inv [OF assms(1)]] by (simp add: after_def)
  qed
  then show ?thesis by (rule session_okE) blast
qed

theorem counters_in_order_witness:
  "reachable started_widget \<and> bound_handler Button_1 started_widget = Some Start_game
   \<and> num_solved (after (call Start_game Button_1 example_inputs started_widget)) = Some 0
   \<and> num_displayed (after (call Start_game Button_1 example_inputs started_widget)) = Some 1
   \<and> num_problems (after (call Start_game Button_1 example_inputs started_widget)) = 5"
proof -
  have b: "bound_handler Button_1 started_widget = Some Start_game" by code_simp
  have v: "num_solved (after (call Start_game Button_1 example_inputs started_widget)) = Some 0"
    "num_displayed (after (call Start_game Button_1 example_inputs started_widget)) = Some 1"
    "num_problems (after (call Start_game Button_1 example_inputs started_widget)) = 5"
    by code_simp+
  from counters_in_order [OF reachable_started b, of example_inputs] v reachable_started b
  show ?thesis by simp
qed

text \<open>
  C3.  As stated, with the attributes of the widget as the only context, the claim does
  not hold: \<open>_get_formatted\<close> looks a token name up in \<open>vars(self)\<close> and then in
  \<open>dict(globals(), **locals())\<close>, so that the token \<open>[template]\<close>, which names no
  attribute, is resolved (to the template itself).  What holds: \<open>_get_formatted\<close>
  raises the \<open>RuntimeError\<close> for a bad format key if and only if some token name that
  \<open>re.findall\<close> reads from the template has an entry neither in \<open>vars(self)\<close> nor in
  \<open>dict(globals(), **locals())\<close>; and it returns a text when every token name has an
  entry, holds no character that is special in a regular expression, and has a value
  whose text holds no backslash.
\<close>

theorem get_formatted_bad_key_iff:
  "((\<exists>msg. get_formatted w t = Inl (RuntimeError msg)) \<longleftrightarrow>
      (\<exists>c\<in>set (findall t). map_of (vars_self w) c = None \<and> scope_lookup w t c = None))
   \<and> ((\<forall>c\<in>set (findall t). \<exists>v. lookup w t c = Some v \<and> plain_name c \<and> backslash \<notin> set v) \<longrightarrow>
        (\<exists>s. get_formatted w t = Inr s))"
proof (intro conjI iffI impI)
  assume "\<exists>msg. get_formatted w t = Inl (RuntimeError msg)"
  then obtain msg where g: "get_formatted w t = Inl (RuntimeError msg)" ..
  show "\<exists>c\<in>set (findall t). map_of (vars_self w) c = None \<and> scope_lookup w t c = None"
  proof (cases "find_values w t (findall t) []")
    case (Inl e)
    from find_values_Inl [OF this] show ?thesis by (auto simp: lookup_None_iff)
  next
    case (Inr r)
    with g have "replace_all r t = Inl (RuntimeError msg)" by (simp add: get_formatted_def)
    from replace_all_Inl [OF this] show ?thesis by simp
  qed
next
  assume "\<exists>c\<in>set (findall t). map_of (vars_self w) c = None \<and> scope_lookup w t c = None"
  then have "\<exists>c\<in>set (findall t). lookup w t c = None" by (simp add: lookup_None_iff)
  from find_values_missing [OF this, of "[]"] obtain c where
    "find_values w t (findall t) [] = Inl (bad_format_key c)" by auto
  then show "\<exists>msg. get_formatted w t = Inl (RuntimeError msg)"
    by (simp add: get_formatted_def bad_format_key_def)
next
  assume "\<forall>c\<in>set (findall t). \<exists>v. lookup w t c = Some v \<and> plain_name c \<and> backslash \<notin> set v"
  then show "\<exists>s. get_formatted w t = Inr s" by (rule get_formatted_Inr)
qed

theorem get_formatted_bad_key_iff_witness:
  "findall ''[num_problems] of [foo]'' = [''num_problems'', ''foo'']
   \<and> map_of (vars_self started_widget) ''foo'' = None
   \<and> scope_lookup started_widget ''[num_problems] of [foo]'' ''foo'' = None
   \<and> (\<exists>msg. get_formatted started_widget ''[num_problems] of [foo]'' = Inl (RuntimeError msg))
   \<and> findall ''[num_problems] of [template]'' = [''num_problems'', ''template'']
   \<and> \<not> (\<exists>msg. get_formatted started_widget ''[num_problems] of [template]'' = Inl (RuntimeError msg))"
proof -
  have f: "findall ''[num_problems] of [foo]'' = [''num_problems'', ''foo'']"
    "map_of (vars_self started_widget) ''foo'' = None"
    "scope_lookup started_widget ''[num_problems] of [foo]'' ''foo'' = None"
    by code_simp+
  have g: "findall ''[num_problems] of [template]'' = [''num_problems'', ''template'']"
    "map_of (vars_self started_widget) ''num_problems'' \<noteq> None"
    "scope_lookup started_widget ''[num_problems] of [template]'' ''template'' \<noteq> None"
    by code_simp+
  note t1 = conjunct1 [OF get_formatted_bad_key_iff [of started_widget "''[num_problems] of [foo]''"]]
  note t2 = conjunct1 [OF get_formatted_bad_key_iff [of started_widget "''[num_problems] of [template]''"]]
  have a: "\<exists>msg. get_formatted started_widget ''[num_problems] of [foo]'' = Inl (RuntimeError msg)"
    unfolding t1 f(1) using f(2,3) by simp
  have b: "\<not> (\<exists>msg. get_formatted started_widget ''[num_problems] of [template]'' = Inl (RuntimeError msg))"
    unfolding t2 g(1) using g(2,3) by simp
  from f g(1) a b show ?thesis by simp
qed

theorem template_found_outside_attributes:
  "findall ''[template]'' = [''template'']
   \<and> map_of (vars_self started_widget) ''template'' = None
   \<and> get_formatted started_widget ''[template]'' = Inr ''[template]''"
proof -
  have "findall ''[template]'' = [''template'']"
    "map_of (vars_self started_widget) ''template'' = None"
    "get_formatted started_widget ''[template]'' = Inr ''[template]''"
    by code_simp+
  then show ?thesis by simp
qed

text \<open>
  C4.  As stated, for every template and context, the claim does not hold:
  \<open>_get_formatted\<close> runs one \<open>re.sub\<close> for each token name, each on the result of the one
  before, so that the text put in for one name is scanned again for the names that
  follow.  In the first example below the value of \<open>template\<close> holds the token
  \<open>[num_problems]\<close>, which the second \<open>re.sub\<close> replaces; in the second the buffer (set by
  hand, no key types it) holds it.  What holds: when every token name of the template
  holds no character that is special in a regular expression, and every value that a
  token name has is a text with neither an opening bracket nor a backslash, then
  \<open>_get_formatted\<close> gives what the single pass \<open>resolve\<close> gives on the context
  \<open>lookup\<close>: the same text, or the same error for the first token name with no entry.
\<close>

theorem get_formatted_resolve:
  assumes "\<forall>c\<in>set (findall t). plain_name c \<and> (\<forall>v. lookup w t c = Some v \<longrightarrow> quiet v)"
  shows "get_formatted w t = resolve (lookup w t) t"
proof (cases "List.find (\<lambda>c. lookup w t c = None) (findall t)")
  case (Some c)
  from find_values_first_missing [OF this] Some show ?thesis
    by (simp add: get_formatted_def resolve_def)
next
  case None
  then have "\<forall>c\<in>set (findall t). lookup w t c \<noteq> None" by (simp add: find_None_iff)
  with assms have "\<forall>c\<in>set (findall t). \<exists>v. lookup w t c = Some v \<and> plain_name c \<and> quiet v"
    by fastforce
  from get_formatted_single_pass [OF this] None show ?thesis by (simp add: resolve_def)
qed

theorem get_formatted_resolve_witness:
  "findall (''[first_num] X [second_num]'' @ newline # ''[_user_input_buffer]'') =
       [''first_num'', ''second_num'', ''_user_input_buffer'']
   \<and> plain_name ''first_num'' \<and> plain_name ''second_num'' \<and> plain_name ''_user_input_buffer''
   \<and> lookup typed_56 (''[first_num] X [second_num]'' @ newline # ''[_user_input_buffer]'') ''first_num''
       = Some ''7''
   \<and> lookup typed_56 (''[first_num] X [second_num]'' @ newline # ''[_user_input_buffer]'') ''second_num''
       = Some ''8''
   \<and> lookup typed_56 (''[first_num] X [second_num]'' @ newline # ''[_user_input_buffer]'')
         ''_user_input_buffer'' = Some ''56''
   \<and> quiet ''7'' \<and> quiet ''8'' \<and> quiet ''56''
   \<and> get_formatted typed_56 (''[first_num] X [second_num]'' @ newline # ''[_user_input_buffer]'') =
       Inr (''7 X 8'' @ newline # ''56'')
   \<and> resolve (lookup typed_56 (''[first_num] X [second_num]'' @ newline # ''[_user_input_buffer]''))
         (''[first_num] X [second_num]'' @ newline # ''[_user_input_buffer]'') =
       Inr (''7 X 8'' @ newline # ''56'')
   \<and> findall ''[first_num] X [third_num]'' = [''first_num'', ''third_num'']
   \<and> plain_name ''third_num''
   \<and> lookup typed_56 ''[first_num] X [third_num]'' ''first_num'' = Some ''7''
   \<and> lookup typed_56 ''[first_num] X [third_num]'' ''third_num'' = None
   \<and> get_formatted typed_56 ''[first_num] X [third_num]'' = Inl (bad_format_key ''third_num'')
   \<and> resolve (lookup typed_56 ''[first_num] X [third_num]'') ''[first_num] X [third_num]'' =
       Inl (bad_format_key ''third_num'')"
proof -
  let ?t = "''[first_num] X [second_num]'' @ newline # ''[_user_input_buffer]''"
  let ?u = "''[first_num] X [third_num]''"
  have f: "findall ?t = [''first_num'', ''second_num'', ''_user_input_buffer'']"
    "findall ?u = [''first_num'', ''third_num'']"
    by code_simp+
  have l: "lookup typed_56 ?t ''first_num'' = Some ''7''"
    "lookup typed_56 ?t ''second_num'' = Some ''8''"
    "lookup typed_56 ?t ''_user_input_buffer'' = Some ''56''"
    "lookup typed_56 ?u ''first_num'' = Some ''7''"
    "lookup typed_56 ?u ''third_num'' = None"
    by code_simp+
  have p: "plain_name ''first_num''" "plain_name ''second_num''" "plain_name ''_user_input_buffer''"
    "plain_name ''third_num''" "quiet ''7''" "quiet ''8''" "quiet ''56''"
    by code_simp+
  have h: "\<forall>c\<in>set (findall ?t). plain_name c \<and> (\<forall>v. lookup typed_56 ?t c = Some v \<longrightarrow> quiet v)"
    unfolding f using l p by simp
  have k: "\<forall>c\<in>set (findall ?u). plain_name c \<and> (\<forall>v. lookup typed_56 ?u c = Some v \<longrightarrow> quiet v)"
    unfolding f using l p by simp
  have r: "resolve (lookup typed_56 ?t) ?t = Inr (''7 X 8'' @ newline # ''56'')"
    "resolve (lookup typed_56 ?u) ?u = Inl (bad_format_key ''third_num'')"
    by code_simp+
  from get_formatted_resolve [OF h] r(1)
  have a: "get_formatted typed_56 ?t = Inr (''7 X 8'' @ newline # ''56'')" by (simp only:)
  from get_formatted_resolve [OF k] r(2)
  have b: "get_formatted typed_56 ?u = Inl (bad_format_key ''third_num'')" by (simp only:)
  from f(1) p(1,2,3) l(1,2,3) p(5,6,7) a r(1) f(2) p(4) l(4,5) b r(2) show ?thesis by (intro conjI)
qed

theorem substituted_text_scanned_again:
  "reachable started_widget
   \<and> findall ''[template] [num_problems]'' = [''template'', ''num_problems'']
   \<and> lookup started_widget ''[template] [num_problems]'' ''template'' = Some ''[template] [num_problems]''
   \<and> lookup started_widget ''[template] [num_problems]'' ''num_problems'' = Some ''5''
   \<and> get_formatted started_widget ''[template] [num_problems]'' = Inr ''[template] 5 5''
   \<and> resolve (lookup started_widget ''[template] [num_problems]'') ''[template] [num_problems]'' =
       Inr ''[template] [num_problems] 5''
   \<and> get_formatted (started_widget\<lparr>user_input_buffer := Some ''[num_problems]''\<rparr>)
         ''[_user_input_buffer] [num_problems]'' = Inr ''5 5''
   \<and> resolve (lookup (started_widget\<lparr>user_input_buffer := Some ''[num_problems]''\<rparr>)
           ''[_user_input_buffer] [num_problems]'') ''[_user_input_buffer] [num_problems]'' =
       Inr ''[num_problems] 5''"
proof -
  have "findall ''[template] [num_problems]'' = [''template'', ''num_problems'']"
    "lookup started_widget ''[template] [num_problems]'' ''template'' = Some ''[template] [num_problems]''"
    "lookup started_widget ''[template] [num_problems]'' ''num_problems'' = Some ''5''"
    "get_formatted started_widget ''[template] [num_problems]'' = Inr ''[template] 5 5''"
    "resolve (lookup started_widget ''[template] [num_problems]'') ''[template] [num_problems]'' =
       Inr ''[template] [num_problems] 5''"
    "get_formatted (started_widget\<lparr>user_input_buffer := Some ''[num_problems]''\<rparr>)
         ''[_user_input_buffer] [num_problems]'' = Inr ''5 5''"
    "resolve (lookup (started_widget\<lparr>user_input_buffer := Some ''[num_problems]''\<rparr>)
           ''[_user_input_buffer] [num_problems]'') ''[_user_input_buffer] [num_problems]'' =
       Inr ''[num_problems] 5''"
    by code_simp+
  with reachable_started show ?thesis by (intro conjI)
qed

text \<open>
  C5.  \<open>on_keypress\<close> appends every character that \<open>str.isnumeric\<close> accepts, and that
  is more than the decimal digits: the key of the superscript two (U+00B2) is
  appended.  With that character in the buffer the key Return calls \<open>on_enter\<close>, whose \<open>int\<close>
  raises \<open>ValueError\<close>.  The state where this happens is reached from start-up by a
  click and that one key.
\<close>

theorem superscript_two_raises:
  "reachable typed_superscript
   \<and> isnumeric [CHR 0xB2]
   \<and> user_input_buffer typed_superscript = Some [CHR 0xB2]
   \<and> bound_handler Return typed_superscript = Some On_enter
   \<and> on_enter typed_superscript = Inl (ValueError, typed_superscript)"
proof -
  have "reachable typed_superscript"
    unfolding typed_superscript_def first_problem_def by (intro reachable_run reachable_started)
  moreover have "isnumeric [CHR 0xB2]"
    "user_input_buffer typed_superscript = Some [CHR 0xB2]"
    "bound_handler Return typed_superscript = Some On_enter"
    "on_enter typed_superscript = Inl (ValueError, typed_superscript)"
    by code_simp+
  ultimately show ?thesis by simp
qed




text \<open>
  C7.  \<open>_display_problem\<close>, called with the counter and the start time set: when
  \<open>_num_displayed = num_problems\<close> it records \<open>_end_time\<close>, sets \<open>seconds_elapsed\<close> to
  \<open>_end_time - _start_time\<close> rounded to one decimal place and enters the state \<open>end\<close>;
  otherwise it draws two factors in the range, enters the state \<open>problem\<close> and raises
  \<open>_num_displayed\<close> by one.  The rounded time is a whole number of tenths, at most a
  twentieth away, and it is not negative when the clock has not gone back since
  the start.  That last condition is needed: \<open>time.time()\<close> can go back, and then
  \<open>seconds_elapsed\<close> is negative, as in the session below, whose fifth call of
  \<open>next_problem\<close> (the one after the fifth answer) enters the state \<open>end\<close>.
\<close>

theorem display_problem_steps:
  assumes "map_of widget_states (curr_widget_state w) \<noteq> None" and "buffer_ok w"
    and "min_factor w \<le> max_factor w"
    and "num_displayed w = Some d" and "start_time w = Some t0"
  shows "(d = num_problems w \<longrightarrow>
          (\<exists>bs s. display_problem t d1 d2 w =
             Inr (w\<lparr>seconds_elapsed := Some (py_round1 (t - t0)), end_time := Some t,
                   bindings := bs, text_var := s, curr_widget_state := ''end''\<rparr>)))
    \<and> (d \<noteq> num_problems w \<longrightarrow>
          (\<exists>x y bs s. display_problem t d1 d2 w =
             Inr (w\<lparr>num_displayed := Some (d + 1), first_num := Some x, second_num := Some y,
                   bindings := bs, text_var := s, curr_widget_state := ''problem''\<rparr>)
           \<and> min_factor w \<le> x \<and> x \<le> max_factor w \<and> min_factor w \<le> y \<and> y \<le> max_factor w))
    \<and> (\<exists>k. py_round1 (t - t0) = of_int k / 10)
    \<and> \<bar>py_round1 (t - t0) - (t - t0)\<bar> \<le> 1 / 20
    \<and> (t0 \<le> t \<longrightarrow> 0 \<le> py_round1 (t - t0))"
proof (intro conjI impI)
  show "\<exists>bs s. display_problem t d1 d2 w =
             Inr (w\<lparr>seconds_elapsed := Some (py_round1 (t - t0)), end_time := Some t,
                   bindings := bs, text_var := s, curr_widget_state := ''end''\<rparr>)"
    if "d = num_problems w"
  proof -
    from that assms(4) have nd: "num_displayed w = Some (num_problems w)" by simp
    show ?thesis
    proof (rule display_problem_end [OF nd assms(5,1,2), of t d1 d2])
      fix bs s
      assume "display_problem t d1 d2 w =
         Inr (w\<lparr>seconds_elapsed := Some (py_round1 (t - t0)), end_time := Some t,
               bindings := bs, text_var := s, curr_widget_state := ''end''\<rparr>)"
      then show ?thesis by (intro exI)
    qed
  qed
  show "\<exists>x y bs s. display_problem t d1 d2 w =
             Inr (w\<lparr>num_displayed := Some (d + 1), first_num := Some x, second_num := Some y,
                   bindings := bs, text_var := s, curr_widget_state := ''problem''\<rparr>)
           \<and> min_factor w \<le> x \<and> x \<le> max_factor w \<and> min_factor w \<le> y \<and> y \<le> max_factor w"
    if ne: "d \<noteq> num_problems w"
  proof (rule display_problem_next [OF assms(4) ne assms(3,1,2), of t d1 d2])
    fix x y bs s
    assume "display_problem t d1 d2 w =
       Inr (w\<lparr>num_displayed := Some (d + 1), first_num := Some x, second_num := Some y,
             bindings := bs, text_var := s, curr_widget_state := ''problem''\<rparr>)"
      and "min_factor w \<le> x" "x \<le> max_factor w" "min_factor w \<le> y" "y \<le> max_factor w"
    then show ?thesis by (intro exI [of _ x] exI [of _ y] exI [of _ bs] exI [of _ s]) simp
  qed
  show "\<exists>k. py_round1 (t - t0) = of_int k / 10" by (rule py_round1_tenth)
  show "\<bar>py_round1 (t - t0) - (t - t0)\<bar> \<le> 1 / 20" by (rule py_round1_close)
  show "0 \<le> py_round1 (t - t0)" if "t0 \<le> t" using that by (intro py_round1_nonneg) simp
qed

theorem display_problem_steps_witness:
  "map_of widget_states (curr_widget_state five_answered) \<noteq> None \<and> buffer_ok five_answered
   \<and> min_factor five_answered \<le> max_factor five_answered
   \<and> num_displayed five_answered = Some 5 \<and> num_problems five_answered = 5
   \<and> start_time five_answered = Some 10
   \<and> (\<exists>bs s. display_problem (913 / 25) 7 8 five_answered =
         Inr (five_answered\<lparr>seconds_elapsed := Some (53 / 2), end_time := Some (913 / 25),
               bindings := bs, text_var := s, curr_widget_state := ''end''\<rparr>))"
proof -
  note v = five_answered_values
  have m: "map_of widget_states (curr_widget_state five_answered) \<noteq> None"
    by (simp add: v map_of_states)
  have ok: "buffer_ok five_answered" by (simp add: buffer_ok_def v backslash_def)
  have mm: "min_factor five_answered \<le> max_factor five_answered" by (simp add: v)
  have r: "py_round1 (663 / 25) = 53 / 2" by code_simp
  from display_problem_steps [OF m ok mm v(2) v(5), of "913 / 25" 7 8]
  have "\<exists>bs s. display_problem (913 / 25) 7 8 five_answered =
         Inr (five_answered\<lparr>seconds_elapsed := Some (53 / 2), end_time := Some (913 / 25),
               bindings := bs, text_var := s, curr_widget_state := ''end''\<rparr>)"
    by (simp add: v r)
  with m ok mm v show ?thesis by simp
qed

theorem elapsed_time_negative:
  "reachable five_answered
   \<and> curr_widget_state five_answered = ''correct''
   \<and> num_displayed five_answered = Some 5
   \<and> start_time five_answered = Some 10
   \<and> bound_handler Button_1 five_answered = Some Next_problem
   \<and> call Next_problem Button_1 (example_inputs\<lparr>clock := 5\<rparr>) five_answered =
        next_problem (example_inputs\<lparr>clock := 5\<rparr>) five_answered
   \<and> curr_widget_state (dispatch Button_1 (example_inputs\<lparr>clock := 5\<rparr>) five_answered) = ''end''
   \<and> end_time (dispatch Button_1 (example_inputs\<lparr>clock := 5\<rparr>) five_answered) = Some 5
   \<and> seconds_elapsed (dispatch Button_1 (example_inputs\<lparr>clock := 5\<rparr>) five_answered) = Some (- 5)"
proof -
  have "reachable five_answered"
    unfolding five_answered_def by (intro reachable_run reachable_started)
  moreover have "bound_handler Button_1 five_answered = Some Next_problem"
    by (simp add: bound_handler_next [OF five_answered_values(9)])
  ultimately show ?thesis using five_answered_values by (simp add: five_answered_ended)
qed

text \<open>
  C8.  As stated, with \<open>_num_displayed\<close> equal to 0 when \<open>start_game\<close> is done, the claim
  does not hold: \<open>_init_vars\<close> sets the counter to 0 and \<open>_display_problem\<close>, which
  \<open>start_game\<close> runs next, counts the first problem, so that the counter is 1 when
  \<open>start_game\<close> returns, as in the session below, started again from the state \<open>end\<close> by
  the key Return.  What holds: \<open>start_game\<close>, called in the state \<open>initial\<close> or \<open>end\<close> (with
  \<open>num_problems\<close> not zero and a factor range that is not empty), returns the widget in
  the state \<open>problem\<close> with \<open>num_solved\<close> 0, \<open>_num_displayed\<close> 1, the buffer empty,
  \<open>_start_time\<close> the time read and two factors in the range (besides these only the
  bindings and the text shown change).
\<close>

theorem start_game_begins_session:
  assumes "curr_widget_state w = ''initial'' \<or> curr_widget_state w = ''end''"
    and "num_problems w \<noteq> 0" and "min_factor w \<le> max_factor w"
  shows "\<exists>x y bs s.
        start_game inp w =
          Inr (w\<lparr>num_solved := Some 0, num_displayed := Some 1, first_num := Some x, second_num := Some y,
                start_time := Some (clock inp), user_input_buffer := Some [],
                bindings := bs, text_var := s, curr_widget_state := ''problem''\<rparr>)
      \<and> min_factor w \<le> x \<and> x \<le> max_factor w \<and> min_factor w \<le> y \<and> y \<le> max_factor w"
proof -
  have m: "map_of widget_states (curr_widget_state w) \<noteq> None"
    using assms(1) map_of_states(1,5) by auto
  show ?thesis
  proof (rule start_game_result [OF assms(2,3) m, of inp])
    fix x y bs s
    assume "start_game inp w =
       Inr (w\<lparr>num_solved := Some 0, num_displayed := Some 1, first_num := Some x, second_num := Some y,
             start_time := Some (clock inp), user_input_buffer := Some [],
             bindings := bs, text_var := s, curr_widget_state := ''problem''\<rparr>)"
      and "min_factor w \<le> x" "x \<le> max_factor w" "min_factor w \<le> y" "y \<le> max_factor w"
    then show ?thesis by (intro exI [of _ x] exI [of _ y] exI [of _ bs] exI [of _ s]) simp
  qed
qed

theorem start_game_begins_session_witness:
  "curr_widget_state started_widget = ''initial'' \<and> num_problems started_widget = 5
   \<and> min_factor started_widget = 0 \<and> max_factor started_widget = 10
   \<and> (\<exists>x y bs s.
        start_game example_inputs started_widget =
          Inr (started_widget\<lparr>num_solved := Some 0, num_displayed := Some 1, first_num := Some x,
                second_num := Some y, start_time := Some 10, user_input_buffer := Some [],
                bindings := bs, text_var := s, curr_widget_state := ''problem''\<rparr>)
      \<and> 0 \<le> x \<and> x \<le> 10 \<and> 0 \<le> y \<and> y \<le> 10)
   \<and> curr_widget_state session_ended = ''end'' \<and> num_problems session_ended = 5
   \<and> min_factor session_ended = 0 \<and> max_factor session_ended = 10
   \<and> (\<exists>x y bs s.
        start_game example_inputs session_ended =
          Inr (session_ended\<lparr>num_solved := Some 0, num_displayed := Some 1, first_num := Some x,
                second_num := Some y, start_time := Some 10, user_input_buffer := Some [],
                bindings := bs, text_var := s, curr_widget_state := ''problem''\<rparr>)
      \<and> 0 \<le> x \<and> x \<le> 10 \<and> 0 \<le> y \<and> y \<le> 10)"
proof -
  have v: "curr_widget_state started_widget = ''initial''" "num_problems started_widget = 5"
    "min_factor started_widget = 0" "max_factor started_widget = 10" "clock example_inputs = 10"
    by code_simp+
  have "curr_widget_state started_widget = ''initial'' \<or> curr_widget_state started_widget = ''end''"
    "num_problems started_widget \<noteq> 0" "min_factor started_widget \<le> max_factor started_widget"
    using v by simp_all
  from start_game_begins_session [OF this, of example_inputs] v
  have a: "\<exists>x y bs s.
        start_game example_inputs started_widget =
          Inr (started_widget\<lparr>num_solved := Some 0, num_displayed := Some 1, first_num := Some x,
                second_num := Some y, start_time := Some 10, user_input_buffer := Some [],
                bindings := bs, text_var := s, curr_widget_state := ''problem''\<rparr>)
      \<and> 0 \<le> x \<and> x \<le> 10 \<and> 0 \<le> y \<and> y \<le> 10" by simp
  note e = session_ended_values(1-4)
  have "curr_widget_state session_ended = ''initial'' \<or> curr_widget_state session_ended = ''end''"
    "num_problems session_ended \<noteq> 0" "min_factor session_ended \<le> max_factor session_ended"
    using e by simp_all
  from start_game_begins_session [OF this, of example_inputs] v(5) e
  have b: "\<exists>x y bs s.
        start_game example_inputs session_ended =
          Inr (session_ended\<lparr>num_solved := Some 0, num_displayed := Some 1, first_num := Some x,
                second_num := Some y, start_time := Some 10, user_input_buffer := Some [],
                bindings := bs, text_var := s, curr_widget_state := ''problem''\<rparr>)
      \<and> 0 \<le> x \<and> x \<le> 10 \<and> 0 \<le> y \<and> y \<le> 10" by simp
  from v(1-4) a e b show ?thesis by simp
qed

theorem start_game_counts_first_problem:
  "reachable session_ended
   \<and> curr_widget_state session_ended = ''end''
   \<and> num_displayed session_ended = Some 5
   \<and> bound_handler Return session_ended = Some Start_game
   \<and> start_game example_inputs session_ended = Inr (dispatch Return example_inputs session_ended)
   \<and> curr_widget_state (dispatch Return example_inputs session_ended) = ''problem''
   \<and> num_solved (dispatch Return example_inputs session_ended) = Some 0
   \<and> user_input_buffer (dispatch Return example_inputs session_ended) = Some []
   \<and> num_displayed (dispatch Return example_inputs session_ended) = Some 1"
proof -
  have h: "bound_handler Return session_ended = Some Start_game"
    by (simp add: bound_handler_start [OF session_ended_values(7)])
  then have d: "dispatch Return example_inputs session_ended =
      after (start_game example_inputs session_ended)"
    by (simp add: dispatch_def)
  show ?thesis
    using reachable_session_ended session_ended_values(1,5) h
    unfolding d session_restarted by (simp add: after_def)
qed

text \<open>
  C9.  In every state that the event loop can reach, \<open>curr_widget_state\<close> is one of the
  five names of the table \<open>widget_states\<close>, the lookup of the current state succeeds,
  and no handler call that an event triggers raises \<open>KeyError\<close>: every transition asks
  for one of the five names.
\<close>

theorem state_lookup_succeeds:
  assumes "reachable w"
  shows "curr_widget_state w \<in> {''initial'', ''problem'', ''correct'', ''incorrect'', ''end''}
    \<and> map_of widget_states (curr_widget_state w) \<noteq> None
    \<and> (\<forall>ev inp h k w'. bound_handler ev w = Some h \<longrightarrow> call h ev inp w \<noteq> Inl (KeyError k, w'))"
proof (intro conjI allI impI)
  note inv = reachable_inv [OF assms]
  show m: "map_of widget_states (curr_widget_state w) \<noteq> None" by (rule widget_invD(1) [OF inv])
  then show "curr_widget_state w \<in> {''initial'', ''problem'', ''correct'', ''incorrect'', ''end''}"
    by (rule state_cases) simp_all
  fix ev inp h k w'
  assume "bound_handler ev w = Some h"
  with inv show "call h ev inp w \<noteq> Inl (KeyError k, w')"
    by (cases rule: call_inv [where inp = inp]) simp_all
qed

theorem state_lookup_succeeds_witness:
  "reachable first_problem \<and> curr_widget_state first_problem = ''problem''
   \<and> bound_handler Return first_problem = Some On_enter
   \<and> call On_enter Return example_inputs first_problem = Inr first_problem"
proof -
  have r: "reachable first_problem" unfolding first_problem_def by (rule reachable_run [OF reachable_started])
  have v: "curr_widget_state first_problem = ''problem''"
    "bound_handler Return first_problem = Some On_enter"
    "call On_enter Return example_inputs first_problem = Inr first_problem"
    by code_simp+
  from state_lookup_succeeds [OF r] r v show ?thesis by simp
qed

text \<open>
  C10.  No handler call, whether it returns or raises, changes \<open>num_problems\<close>,
  \<open>_min_factor\<close> or \<open>_max_factor\<close>; in every state that the event loop can reach they
  have the values 5, 0 and 10 of start-up.
\<close>

theorem settings_unchanged:
  "num_problems (after (call h ev inp w)) = num_problems w
   \<and> min_factor (after (call h ev inp w)) = min_factor w
   \<and> max_factor (after (call h ev inp w)) = max_factor w
   \<and> (reachable w \<longrightarrow> num_problems w = 5 \<and> min_factor w = 0 \<and> max_factor w = 10)"
proof -
  have "config (after (call h ev inp w)) = config w" by (rule call_config)
  moreover have "num_problems w = 5 \<and> min_factor w = 0 \<and> max_factor w = 10" if "reachable w"
    using widget_invD(3-5) [OF reachable_inv [OF that]] by simp
  ultimately show ?thesis by (simp add: config_def)
qed

theorem settings_unchanged_witness:
  "reachable first_problem
   \<and> num_problems (after (call Next_problem Button_1 example_inputs first_problem)) = 5
   \<and> min_factor (after (call Next_problem Button_1 example_inputs first_problem)) = 0
   \<and> max_factor (after (call Next_problem Button_1 example_inputs first_problem)) = 10"
proof -
  have r: "reachable first_problem" unfolding first_problem_def by (rule reachable_run [OF reachable_started])
  from settings_unchanged [of Next_problem Button_1 example_inputs first_problem] r
  show ?thesis by simp
qed

end
